theory Spec2Isabelle
  imports Main "HOL-Library.Product_Lexorder" "HOL-Library.Stream" "HOL-Library.Multiset"
begin

section \<open>Strings and times of day\<close>

text \<open>
  A Python \<open>str\<close> is a sequence of Unicode code points; it is modelled as the list of
  those code points. ASCII literals are written through \<open>ascii\<close>; the labels of the
  script that are written in Chinese are given by their code points.
\<close>

type_synonym pystr = "nat list"

abbreviation (input) ascii :: "string \<Rightarrow> pystr" where
  "ascii s \<equiv> map of_char s"

text \<open>
  A \<open>datetime.time\<close> built by the script has no microseconds and no time zone: it is
  the triple (hour, minute, second). Python compares two such values field by field from
  the hour down, which is the lexicographic order of the triple. The constructor of
  \<open>datetime.time\<close> refuses fields out of range, so every value of the program satisfies
  \<open>valid_time\<close>.
\<close>

type_synonym time = "nat \<times> nat \<times> nat"

fun valid_time :: "time \<Rightarrow> bool" where
  "valid_time (h, m, s) = (h < 24 \<and> m < 60 \<and> s < 60)"

definition DAY_START :: time where "DAY_START = (7, 0, 0)"
definition DAY_END :: time where "DAY_END = (22, 0, 0)"
definition LUNCH_START :: time where "LUNCH_START = (11, 30, 0)"
definition LUNCH_END :: time where "LUNCH_END = (13, 30, 0)"
definition DINNER_START :: time where "DINNER_START = (17, 30, 0)"
definition DINNER_END :: time where "DINNER_END = (19, 0, 0)"

text \<open>
  \<open>datetime.combine(date.min, t)\<close> places \<open>t\<close> on day one; the difference of two such
  values, read by \<open>total_seconds()\<close>, is the difference of the seconds since midnight,
  and adding a \<open>timedelta\<close> and taking \<open>.time()\<close> again drops the date.
\<close>

fun to_seconds :: "time \<Rightarrow> nat" where
  "to_seconds (h, m, s) = h * 3600 + m * 60 + s"

definition time_of_seconds :: "nat \<Rightarrow> time" where
  "time_of_seconds n = (n div 3600 mod 24, n div 60 mod 60, n mod 60)"

definition total_seconds_between :: "time \<Rightarrow> time \<Rightarrow> int" where
  "total_seconds_between a b = int (to_seconds b) - int (to_seconds a)"

definition add_seconds :: "time \<Rightarrow> int \<Rightarrow> time" where
  "add_seconds t d = time_of_seconds (nat ((int (to_seconds t) + d) mod 86400))"

section \<open>Time Range Parser\<close>

text \<open>
  \<open>\d\<close> in a Python 3 \<open>str\<close> pattern matches every code point of Unicode category Nd.
  These come in runs of ten consecutive code points (the digits 0 to 9 of one script);
  the table lists the first code point of each run (Unicode 14, as shipped with
  CPython 3.11). Only the ASCII run is accepted by \<open>time.fromisoformat\<close>.
\<close>

definition unicode_Nd_starts :: "nat list" where
  "unicode_Nd_starts =
    [0x30, 0x660, 0x6f0, 0x7c0, 0x966, 0x9e6, 0xa66, 0xae6, 0xb66, 0xbe6, 0xc66, 0xce6,
     0xd66, 0xde6, 0xe50, 0xed0, 0xf20, 0x1040, 0x1090, 0x17e0, 0x1810, 0x1946, 0x19d0,
     0x1a80, 0x1a90, 0x1b50, 0x1bb0, 0x1c40, 0x1c50, 0xa620, 0xa8d0, 0xa900, 0xa9d0,
     0xa9f0, 0xaa50, 0xabf0, 0xff10, 0x104a0, 0x10d30, 0x11066, 0x110f0, 0x11136,
     0x111d0, 0x112f0, 0x11450, 0x114d0, 0x11650, 0x116c0, 0x11730, 0x118e0, 0x11950,
     0x11c50, 0x11d50, 0x11da0, 0x16a60, 0x16ac0, 0x16b50, 0x1d7ce, 0x1d7d8, 0x1d7e2,
     0x1d7ec, 0x1d7f6, 0x1e140, 0x1e2f0, 0x1e950, 0x1fbf0]"

definition ascii_digit :: "nat \<Rightarrow> bool" where
  "ascii_digit c = (48 \<le> c \<and> c \<le> 57)"

definition re_digit :: "nat \<Rightarrow> bool" where
  "re_digit c = (if c < 128 then ascii_digit c
                 else list_ex (\<lambda>b. b \<le> c \<and> c < b + 10) unicode_Nd_starts)"

text \<open>The pattern \<open>\d{2}:\d{2}:\d{2}\<close> against a whole string of eight code points.\<close>

fun hms_shaped :: "pystr \<Rightarrow> bool" where
  "hms_shaped [a, b, c, d, e, f, g, h] =
     (re_digit a \<and> re_digit b \<and> c = 58 \<and> re_digit d \<and> re_digit e \<and> f = 58
      \<and> re_digit g \<and> re_digit h)"
| "hms_shaped _ = False"

text \<open>
  \<open>re.findall\<close> scans from the left: where the pattern matches at the current position
  the match is taken and the scan resumes behind it, otherwise the scan moves on by one
  code point. The matches therefore never overlap.
\<close>

function findall_hms :: "pystr \<Rightarrow> pystr list" where
  "findall_hms s =
     (if s = [] then []
      else if hms_shaped (take 8 s) then take 8 s # findall_hms (drop 8 s)
      else findall_hms (tl s))"
  by pat_completeness auto
termination
  by (relation "measure length") (auto simp: neq_Nil_conv)

declare findall_hms.simps [simp del]

text \<open>
  \<open>time.fromisoformat\<close> on a match of the pattern (the only strings the parser hands
  to it): CPython reads two ASCII digits per field and raises \<open>ValueError\<close> (here
  \<open>None\<close>) on any other digit and on a field out of range.
\<close>

fun time_fromisoformat :: "pystr \<Rightarrow> time option" where
  "time_fromisoformat [a, b, c, d, e, f, g, h] =
     (if ascii_digit a \<and> ascii_digit b \<and> c = 58 \<and> ascii_digit d \<and> ascii_digit e
         \<and> f = 58 \<and> ascii_digit g \<and> ascii_digit h
      then (let hh = (a - 48) * 10 + (b - 48); mm = (d - 48) * 10 + (e - 48);
                ss = (g - 48) * 10 + (h - 48)
            in if hh < 24 \<and> mm < 60 \<and> ss < 60 then Some (hh, mm, ss) else None)
      else None)"
| "time_fromisoformat _ = None"

text \<open>
  The parser returns the pair \<open>(None, None)\<close> on failure; every caller unpacks the
  pair and tests it, so the failure is modelled as \<open>None\<close> and a success as
  \<open>Some (start, end)\<close>.
\<close>

definition parse_start_end_from_string :: "pystr \<Rightarrow> (time \<times> time) option" where
  "parse_start_end_from_string time_col_str =
     (let matches = findall_hms time_col_str
      in if length matches = 2
         then (case time_fromisoformat (matches ! 0) of
                 None \<Rightarrow> None
               | Some start_t \<Rightarrow>
                   (case time_fromisoformat (matches ! 1) of
                      None \<Rightarrow> None
                    | Some end_t \<Rightarrow> Some (start_t, end_t)))
         else None)"

section \<open>Serialising a time range\<close>

text \<open>Decimal digits of a number, and the format specifications \<open>02d\<close>, \<open>03d\<close>.\<close>

function dec :: "nat \<Rightarrow> pystr" where
  "dec n = (if n < 10 then [48 + n] else dec (n div 10) @ [48 + n mod 10])"
  by pat_completeness auto
termination
  by (relation "measure id") auto

declare dec.simps [simp del]

definition fmt_0d :: "nat \<Rightarrow> nat \<Rightarrow> pystr" where
  "fmt_0d width n = replicate (width - length (dec n)) 48 @ dec n"

text \<open>\<open>time.isoformat()\<close> of a time without microseconds is \<open>HH:MM:SS\<close>.\<close>

fun isoformat :: "time \<Rightarrow> pystr" where
  "isoformat (h, m, s) = fmt_0d 2 h @ [58] @ fmt_0d 2 m @ [58] @ fmt_0d 2 s"

definition format_time_range :: "time \<Rightarrow> time \<Rightarrow> pystr" where
  "format_time_range start_t end_t =
     (let base_date = ascii ''1900-01-01'';
          start_str = base_date @ ascii '' '' @ isoformat start_t;
          end_str = base_date @ ascii '' '' @ isoformat end_t
      in ascii ''['' @ start_str @ ascii '', '' @ end_str @ ascii '']'')"

section \<open>Locations and labels\<close>

type_synonym loc = "pystr \<times> pystr"

definition DORMITORIES :: "loc list" where
  "DORMITORIES = map (\<lambda>i. ([0x5bbf, 0x820d], fmt_0d 3 i @ [0x680b])) [1..<101]"

definition CANTEENS :: "loc list" where
  "CANTEENS = map (\<lambda>i. ([0x98df, 0x5802], fmt_0d 2 i)) [1..<11]"

definition LIBRARIES :: "loc list" where
  "LIBRARIES = map (\<lambda>i. ([0x56fe, 0x4e66, 0x9986], dec i)) [1..<5]"

text \<open>The five activity names of the script, in the order in which they appear.\<close>

definition ACT_WAKE :: pystr where
  "ACT_WAKE = [0x8d77, 0x5e8a, 0x2f, 0x51c6, 0x5907, 0x2f, 0x65e9, 0x9910]"
definition ACT_STUDY :: pystr where
  "ACT_STUDY = [0x81ea, 0x4e60]"
definition ACT_LUNCH :: pystr where
  "ACT_LUNCH = [0x5348, 0x9910]"
definition ACT_DINNER :: pystr where
  "ACT_DINNER = [0x665a, 0x9910]"
definition ACT_EVENING :: pystr where
  "ACT_EVENING = [0x665a, 0x4e0a, 0x4f11, 0x606f, 0x2f, 0x56de, 0x5bbf, 0x820d]"
definition ACT_REST :: pystr where
  "ACT_REST = [0x4f11, 0x606f, 0x2f, 0x81ea, 0x7531, 0x6d3b, 0x52a8]"

text \<open>
  \<open>random.choice\<close> draws from the shared generator. The generator is the stream of its
  future draws; a choice consumes one draw and indexes the pool with it.
\<close>

type_synonym rng = "nat stream"

definition random_choice :: "'a list \<Rightarrow> rng \<Rightarrow> 'a \<times> rng" where
  "random_choice pool g = (pool ! (shd g mod length pool), stl g)"

section \<open>Free-Slot Computer\<close>

type_synonym row = "pystr list"
type_synonym slot = "time \<times> time"
type_synonym class_entry = "time \<times> time \<times> row"

fun free_slots_loop :: "time \<times> slot list \<Rightarrow> class_entry list \<Rightarrow> time \<times> slot list" where
  "free_slots_loop (current_time, free_slots) [] = (current_time, free_slots)"
| "free_slots_loop (current_time, free_slots) ((start_t, end_t, r) # classes) =
     (let free_slots1 = (if start_t > current_time
                         then free_slots @ [(current_time, start_t)] else free_slots);
          current_time1 = (if end_t > current_time then end_t else current_time)
      in free_slots_loop (current_time1, free_slots1) classes)"

definition print_free_slots :: "pystr \<Rightarrow> class_entry list \<Rightarrow> slot list" where
  "print_free_slots day_name classes =
     (case free_slots_loop (DAY_START, []) classes of
        (current_time, free_slots) \<Rightarrow>
          if current_time < DAY_END then free_slots @ [(current_time, DAY_END)]
          else free_slots)"

section \<open>Gap Filler\<close>

text \<open>
  A subscript \<open>xs[i]\<close> with \<open>i\<close> not negative raises \<open>IndexError\<close> beyond the end
  of the list. Nothing in the script catches it, so a raise ends the run of every caller:
  a result is the error or the value, and \<open>bind_err\<close> passes the value on.
\<close>

datatype py_error = IndexError

definition subscript :: "'a list \<Rightarrow> nat \<Rightarrow> py_error + 'a" where
  "subscript xs i = (if i < length xs then Inr (xs ! i) else Inl IndexError)"

definition bind_err :: "py_error + 'a \<Rightarrow> ('a \<Rightarrow> py_error + 'b) \<Rightarrow> py_error + 'b" where
  "bind_err m f = (case m of Inl err \<Rightarrow> Inl err | Inr x \<Rightarrow> f x)"

text \<open>
  The row builder is a closure over the day name and the column count of the header
  (\<open>len(header)\<close>, a natural number). The padding loop appends one filler field per
  round; the slice \<open>event[:header_length]\<close> keeps the first \<open>header_length\<close> fields.
  \<open>event_fields\<close> is the list \<open>event\<close> after the slice.
\<close>

function pad_event :: "nat \<Rightarrow> row \<Rightarrow> row" where
  "pad_event header_length event =
     (if length event < header_length
      then pad_event header_length (event @ [ascii ''-'']) else event)"
  by pat_completeness auto
termination
  by (relation "measure (\<lambda>(n, ev). n - length ev)") auto

declare pad_event.simps [simp del]

definition event_fields ::
  "pystr \<Rightarrow> nat \<Rightarrow> pystr \<Rightarrow> loc \<Rightarrow> time \<Rightarrow> time \<Rightarrow> row" where
  "event_fields day_name header_length activity_name loc_tuple start_t end_t =
     (case loc_tuple of
        (loc_type, loc_name) \<Rightarrow>
          (let time_str = format_time_range start_t end_t;
               event = [activity_name, day_name, ascii ''-'', ascii ''-'', ascii ''-'',
                        ascii ''-'', loc_type, loc_name, time_str]
           in take header_length (pad_event header_length event)))"

text \<open>
  After the slice the builder prints a line that reads \<open>event[0]\<close>, \<open>event[1]\<close>,
  \<open>event[6]\<close> and \<open>event[7]\<close>, in this order, and then returns \<open>event\<close>. With
  fewer than eight columns one of the reads raises.
\<close>

definition create_new_row ::
  "pystr \<Rightarrow> nat \<Rightarrow> pystr \<Rightarrow> loc \<Rightarrow> time \<Rightarrow> time \<Rightarrow> py_error + row" where
  "create_new_row day_name header_length activity_name loc_tuple start_t end_t =
     (let event = event_fields day_name header_length activity_name loc_tuple start_t end_t
      in bind_err (subscript event 0) (\<lambda>f0.
         bind_err (subscript event 1) (\<lambda>f1.
         bind_err (subscript event 6) (\<lambda>f6.
         bind_err (subscript event 7) (\<lambda>f7. Inr event)))))"

text \<open>
  The body of the filler only ever appends what the row builder returns, so it is
  written over an arbitrary builder \<open>mk\<close>, which may raise. The two statements it
  repeats are \<open>filled_events.append(create_new_row(name, random.choice(POOL), a, b))\<close>
  and the same with the home dormitory in place of the random choice.
\<close>

definition append_random ::
  "(pystr \<Rightarrow> loc \<Rightarrow> time \<Rightarrow> time \<Rightarrow> py_error + 'r) \<Rightarrow> pystr \<Rightarrow> loc list \<Rightarrow> time \<Rightarrow> time
     \<Rightarrow> 'r list \<times> rng \<Rightarrow> py_error + 'r list \<times> rng" where
  "append_random mk activity_name pool a b st =
     (case st of (filled_events, g) \<Rightarrow>
        (case random_choice pool g of
           (l, g1) \<Rightarrow>
             bind_err (mk activity_name l a b) (\<lambda>r. Inr (filled_events @ [r], g1))))"

definition append_home ::
  "(pystr \<Rightarrow> loc \<Rightarrow> time \<Rightarrow> time \<Rightarrow> py_error + 'r) \<Rightarrow> pystr \<Rightarrow> loc \<Rightarrow> time \<Rightarrow> time
     \<Rightarrow> 'r list \<times> rng \<Rightarrow> py_error + 'r list \<times> rng" where
  "append_home mk activity_name home_dorm a b st =
     (case st of (filled_events, g) \<Rightarrow>
        bind_err (mk activity_name home_dorm a b) (\<lambda>r. Inr (filled_events @ [r], g)))"

text \<open>One round of the loop over the interior slots; the state is the lunch flag, the
  rows so far and the generator.\<close>

definition interior_step ::
  "(pystr \<Rightarrow> loc \<Rightarrow> time \<Rightarrow> time \<Rightarrow> py_error + 'r) \<Rightarrow> bool \<times> 'r list \<times> rng \<Rightarrow> slot
     \<Rightarrow> py_error + bool \<times> 'r list \<times> rng" where
  "interior_step mk state sl =
     (case state of (ate_lunch, st) \<Rightarrow>
      (case sl of (start, end') \<Rightarrow>
        (let lunch_overlap_start = max start LUNCH_START;
             lunch_overlap_end = min end' LUNCH_END;
             current_time = start
         in bind_err
              (if \<not> ate_lunch \<and> lunch_overlap_start < lunch_overlap_end
               then bind_err
                      (if current_time < lunch_overlap_start
                       then append_random mk ACT_STUDY LIBRARIES
                              current_time lunch_overlap_start st
                       else Inr st)
                      (\<lambda>st1.
                         (let lunch_duration =
                                total_seconds_between lunch_overlap_start lunch_overlap_end;
                              actual_lunch_duration = min lunch_duration 3600;
                              actual_lunch_end_time =
                                add_seconds lunch_overlap_start actual_lunch_duration
                          in bind_err
                               (append_random mk ACT_LUNCH CANTEENS
                                  lunch_overlap_start actual_lunch_end_time st1)
                               (\<lambda>st2. Inr (True, actual_lunch_end_time, st2))))
               else Inr (ate_lunch, current_time, st))
              (\<lambda>(ate_lunch1, current_time1, st3).
                 if current_time1 < end'
                 then bind_err
                        (append_random mk ACT_STUDY LIBRARIES current_time1 end' st3)
                        (\<lambda>st4. Inr (ate_lunch1, st4))
                 else Inr (ate_lunch1, st3)))))"

text \<open>The loop over the interior slots.\<close>

fun interior_loop ::
  "(pystr \<Rightarrow> loc \<Rightarrow> time \<Rightarrow> time \<Rightarrow> py_error + 'r) \<Rightarrow> bool \<times> 'r list \<times> rng \<Rightarrow> slot list
     \<Rightarrow> py_error + bool \<times> 'r list \<times> rng" where
  "interior_loop mk state [] = Inr state"
| "interior_loop mk state (sl # sls) =
     bind_err (interior_step mk state sl) (\<lambda>state1. interior_loop mk state1 sls)"

text \<open>The treatment of the last slot when there is more than one slot.\<close>

definition last_slot_step ::
  "(pystr \<Rightarrow> loc \<Rightarrow> time \<Rightarrow> time \<Rightarrow> py_error + 'r) \<Rightarrow> loc \<Rightarrow> slot \<Rightarrow> 'r list \<times> rng
     \<Rightarrow> py_error + 'r list \<times> rng" where
  "last_slot_step mk home_dorm sl st =
     (case sl of (last_slot_start, last_slot_end) \<Rightarrow>
        (let dinner_overlap_start = max last_slot_start DINNER_START;
             dinner_overlap_end = min last_slot_end DINNER_END;
             current_time = last_slot_start
         in bind_err
              (if dinner_overlap_start < dinner_overlap_end
               then bind_err
                      (if current_time < dinner_overlap_start
                       then append_random mk ACT_STUDY LIBRARIES
                              current_time dinner_overlap_start st
                       else Inr st)
                      (\<lambda>st1.
                         (let dinner_duration =
                                total_seconds_between dinner_overlap_start dinner_overlap_end;
                              actual_dinner_duration = min dinner_duration 3600;
                              actual_dinner_end_time =
                                add_seconds dinner_overlap_start actual_dinner_duration
                          in bind_err
                               (append_random mk ACT_DINNER CANTEENS
                                  dinner_overlap_start actual_dinner_end_time st1)
                               (\<lambda>st2. Inr (actual_dinner_end_time, st2))))
               else Inr (current_time, st))
              (\<lambda>(current_time1, st3).
                 if current_time1 < last_slot_end
                 then append_home mk ACT_EVENING home_dorm current_time1 last_slot_end st3
                 else Inr st3)))"

text \<open>The slots of the middle loop: \<open>free_slots[1:-1] if len(free_slots) > 2 else []\<close>.\<close>

definition interior_slots :: "slot list \<Rightarrow> slot list" where
  "interior_slots free_slots =
     (if length free_slots > 2 then butlast (tl free_slots) else [])"

definition fill_free_time_with ::
  "(pystr \<Rightarrow> loc \<Rightarrow> time \<Rightarrow> time \<Rightarrow> py_error + 'r) \<Rightarrow> slot list \<Rightarrow> loc \<Rightarrow> rng
     \<Rightarrow> py_error + 'r list \<times> rng" where
  "fill_free_time_with mk free_slots home_dorm g =
     (if free_slots = [] then Inr ([], g)
      else
        (case free_slots ! 0 of (first_slot_start, first_slot_end) \<Rightarrow>
          bind_err
            (append_home mk ACT_WAKE home_dorm first_slot_start first_slot_end ([], g))
            (\<lambda>st0.
               bind_err
                 (interior_loop mk (False, st0) (interior_slots free_slots))
                 (\<lambda>(ate_lunch, st1).
                    if length free_slots > 1
                    then last_slot_step mk home_dorm (last free_slots) st1
                    else if length free_slots = 1
                    then (case free_slots ! 0 of (slot_start, slot_end) \<Rightarrow>
                            append_home mk ACT_REST home_dorm slot_start slot_end st1)
                    else Inr st1))))"

text \<open>
  The filler of the script: the error of the first call of the row builder that raises,
  or the rows and the generator it leaves behind.
\<close>

definition fill_free_time ::
  "pystr \<Rightarrow> slot list \<Rightarrow> loc \<Rightarrow> nat \<Rightarrow> rng \<Rightarrow> py_error + row list \<times> rng" where
  "fill_free_time day_name free_slots home_dorm header_length g =
     fill_free_time_with (create_new_row day_name header_length) free_slots home_dorm g"

text \<open>
  A builder that returns: it gives back a value made of its arguments and never raises.
  The records of the filler are the arguments of the calls of the row builder in emission
  order (activity name, location, start and end of each synthetic record) in a run in
  which the builder returns; they are read off with the builder that returns its
  arguments.
\<close>

type_synonym record_args = "pystr \<times> loc \<times> time \<times> time"

definition returning ::
  "(pystr \<Rightarrow> loc \<Rightarrow> time \<Rightarrow> time \<Rightarrow> 'r) \<Rightarrow> pystr \<Rightarrow> loc \<Rightarrow> time \<Rightarrow> time \<Rightarrow> py_error + 'r" where
  "returning f a l s e = Inr (f a l s e)"

abbreviation (input) tuple_row :: "pystr \<Rightarrow> loc \<Rightarrow> time \<Rightarrow> time \<Rightarrow> record_args" where
  "tuple_row \<equiv> (\<lambda>a l s e. (a, l, s, e))"

definition fill_records :: "slot list \<Rightarrow> loc \<Rightarrow> rng \<Rightarrow> record_args list" where
  "fill_records free_slots home_dorm g =
     (case fill_free_time_with (returning tuple_row) free_slots home_dorm g of
        Inl err \<Rightarrow> []
      | Inr (records, g1) \<Rightarrow> records)"

section \<open>Final sort\<close>

definition day_map :: "pystr \<rightharpoonup> int" where
  "day_map = map_of
     [([0x661f, 0x671f, 0x31], 1), ([0x661f, 0x671f, 0x32], 2), ([0x661f, 0x671f, 0x33], 3),
      ([0x661f, 0x671f, 0x34], 4), ([0x661f, 0x671f, 0x35], 5), ([0x661f, 0x671f, 0x36], 6),
      ([0x661f, 0x671f, 0x37], 7)]"

definition dict_get :: "('k \<rightharpoonup> 'v) \<Rightarrow> 'k \<Rightarrow> 'v \<Rightarrow> 'v" where
  "dict_get d k dflt = (case d k of None \<Rightarrow> dflt | Some v \<Rightarrow> v)"

text \<open>
  A \<open>datetime.time\<close> is always true in a condition (Python 3.5 and later), so
  \<open>if start_t\<close> only tests for \<open>None\<close>.
\<close>

definition get_sort_key :: "row \<Rightarrow> int \<times> time" where
  "get_sort_key r =
     (let day_key = (if length r > 1 then dict_get day_map (r ! 1) 8 else 8);
          parsed = (if length r > 0 then parse_start_end_from_string (last r) else None)
      in (case parsed of
            Some (start_t, end_t) \<Rightarrow> (day_key, start_t)
          | None \<Rightarrow> (day_key, (0, 0, 0))))"

text \<open>\<open>list.sort(key=...)\<close> is a stable sort on the keys, as \<open>sort_key\<close> is.\<close>

definition sort_events :: "row list \<Rightarrow> row list" where
  "sort_events all_events_to_write = sort_key get_sort_key all_events_to_write"

section \<open>Reading intervals\<close>

text \<open>
  The interval and the activity name of a synthetic record, the instants of a half-open
  interval, and the number of intervals of a list that hold a given instant.
\<close>

fun record_interval :: "record_args \<Rightarrow> slot" where
  "record_interval (a, l, s, e) = (s, e)"

fun record_activity :: "record_args \<Rightarrow> pystr" where
  "record_activity (a, l, s, e) = a"

fun covers :: "slot \<Rightarrow> time \<Rightarrow> bool" where
  "covers (s, e) t = (s \<le> t \<and> t < e)"

definition cover_count :: "slot list \<Rightarrow> time \<Rightarrow> nat" where
  "cover_count ivs t = length (filter (\<lambda>iv. covers iv t) ivs)"

section \<open>Specification vocabulary for the Free-Slot Computer\<close>

text \<open>
  The busy intervals of a day, the three conditions the tiling property puts on them, and
  what it means for a list of intervals to tile the range from \<open>a\<close> to \<open>b\<close>: each
  interval starts where the one before it ended, the first starts at \<open>a\<close> and the last
  ends at \<open>b\<close>.
\<close>

definition busy_intervals :: "class_entry list \<Rightarrow> slot list" where
  "busy_intervals classes = map (\<lambda>(start_t, end_t, r). (start_t, end_t)) classes"

definition within_day :: "class_entry list \<Rightarrow> bool" where
  "within_day classes =
     list_all (\<lambda>(start_t, end_t, r). DAY_START \<le> start_t \<and> start_t \<le> end_t \<and> end_t \<le> DAY_END)
       classes"

definition sorted_by_start :: "class_entry list \<Rightarrow> bool" where
  "sorted_by_start classes = sorted (map fst classes)"

definition non_overlapping :: "class_entry list \<Rightarrow> bool" where
  "non_overlapping classes =
     sorted_wrt (\<lambda>(s1, e1, r1) (s2, e2, r2). e1 \<le> s2) classes"

fun tiles :: "time \<Rightarrow> time \<Rightarrow> slot list \<Rightarrow> bool" where
  "tiles a b [] = (a = b)"
| "tiles a b ((s, e) # ivs) = (s = a \<and> s \<le> e \<and> tiles e b ivs)"

text \<open>
  The algorithm in the words of the specification: a cursor that starts at the beginning
  of the day; for each busy interval in input order a free interval from the cursor to the
  start of the busy interval if that start is strictly after the cursor, and the cursor
  moves to the maximum of itself and the end of the busy interval; after the last busy
  interval a free interval from the cursor to the end of the day if the cursor is strictly
  before it.
\<close>

fun spec_scan :: "time \<Rightarrow> class_entry list \<Rightarrow> slot list" where
  "spec_scan cursor [] = (if cursor < DAY_END then [(cursor, DAY_END)] else [])"
| "spec_scan cursor ((start_t, end_t, r) # classes) =
     (if cursor < start_t then [(cursor, start_t)] else []) @ spec_scan (max cursor end_t) classes"

definition spec_free_slots :: "class_entry list \<Rightarrow> slot list" where
  "spec_free_slots classes = spec_scan DAY_START classes"

text \<open>The free intervals emitted inside the loop, before the closing one.\<close>

fun scan_body :: "time \<Rightarrow> class_entry list \<Rightarrow> slot list" where
  "scan_body c [] = []"
| "scan_body c ((s, e, r) # cs) = (if c < s then [(c, s)] else []) @ scan_body (max c e) cs"

text \<open>
  The day in the order of time: before each busy interval the free interval that the
  cursor leaves in front of it, and the closing free interval at the end.
\<close>

fun timeline :: "time \<Rightarrow> class_entry list \<Rightarrow> slot list" where
  "timeline cursor [] = (if cursor < DAY_END then [(cursor, DAY_END)] else [])"
| "timeline cursor ((start_t, end_t, r) # classes) =
     (if cursor < start_t then [(cursor, start_t)] else []) @ (start_t, end_t)
       # timeline (max cursor end_t) classes"

section \<open>Specification vocabulary for the Gap Filler\<close>

text \<open>
  A free interval overlaps a meal window when the later of the two starts is strictly
  before the earlier of the two ends. The capped end of a meal is the start of the overlap
  plus the smaller of the overlap's duration and 3600 seconds.
\<close>

fun lunch_overlaps :: "slot \<Rightarrow> bool" where
  "lunch_overlaps (s, e) = (max s LUNCH_START < min e LUNCH_END)"

fun dinner_overlaps :: "slot \<Rightarrow> bool" where
  "dinner_overlaps (s, e) = (max s DINNER_START < min e DINNER_END)"

definition meal_end :: "time \<Rightarrow> time \<Rightarrow> time" where
  "meal_end overlap_start overlap_end =
     add_seconds overlap_start (min (total_seconds_between overlap_start overlap_end) 3600)"

text \<open>
  A record without its location: activity name, start and end. The following functions
  list, in emission order and without the random choices, the records that the filler
  appends for one interior slot, for all interior slots, for the last slot, and for the
  whole list of free slots.
\<close>

type_synonym record_shape = "pystr \<times> time \<times> time"

fun shape_of :: "record_args \<Rightarrow> record_shape" where
  "shape_of (a, l, s, e) = (a, s, e)"

fun shape_interval :: "record_shape \<Rightarrow> slot" where
  "shape_interval (a, s, e) = (s, e)"

fun interior_shape :: "bool \<Rightarrow> slot \<Rightarrow> record_shape list" where
  "interior_shape ate_lunch (s, e) =
     (if \<not> ate_lunch \<and> lunch_overlaps (s, e)
      then (if s < max s LUNCH_START then [(ACT_STUDY, s, max s LUNCH_START)] else [])
           @ [(ACT_LUNCH, max s LUNCH_START, meal_end (max s LUNCH_START) (min e LUNCH_END))]
           @ (if meal_end (max s LUNCH_START) (min e LUNCH_END) < e
              then [(ACT_STUDY, meal_end (max s LUNCH_START) (min e LUNCH_END), e)] else [])
      else (if s < e then [(ACT_STUDY, s, e)] else []))"

fun interiors_shape :: "bool \<Rightarrow> slot list \<Rightarrow> record_shape list" where
  "interiors_shape ate_lunch [] = []"
| "interiors_shape ate_lunch (sl # sls) =
     interior_shape ate_lunch sl @ interiors_shape (ate_lunch \<or> lunch_overlaps sl) sls"

fun last_shape :: "slot \<Rightarrow> record_shape list" where
  "last_shape (s, e) =
     (if dinner_overlaps (s, e)
      then (if s < max s DINNER_START then [(ACT_STUDY, s, max s DINNER_START)] else [])
           @ [(ACT_DINNER, max s DINNER_START, meal_end (max s DINNER_START) (min e DINNER_END))]
           @ (if meal_end (max s DINNER_START) (min e DINNER_END) < e
              then [(ACT_EVENING, meal_end (max s DINNER_START) (min e DINNER_END), e)] else [])
      else (if s < e then [(ACT_EVENING, s, e)] else []))"

definition fill_shape :: "slot list \<Rightarrow> record_shape list" where
  "fill_shape free_slots =
     (if free_slots = [] then []
      else (ACT_WAKE, hd free_slots) # interiors_shape False (interior_slots free_slots)
           @ (if length free_slots > 1 then last_shape (last free_slots)
              else [(ACT_REST, hd free_slots)]))"

text \<open>Selecting the records of one activity.\<close>

definition is_act :: "pystr \<Rightarrow> record_shape \<Rightarrow> bool" where
  "is_act a sh = (fst sh = a)"

text \<open>
  The last field of a row, which Python reads as \<open>row[-1]\<close>; an empty row has none.
\<close>

definition last_field :: "row \<Rightarrow> pystr option" where
  "last_field r = (if r = [] then None else Some (last r))"

text \<open>The names that the filler gives to its records.\<close>

definition ACTIVITIES :: "pystr list" where
  "ACTIVITIES = [ACT_WAKE, ACT_STUDY, ACT_LUNCH, ACT_DINNER, ACT_EVENING, ACT_REST]"

text \<open>
  Applying a builder that returns to the records of a filler state and of a result, and
  the records that carry one of the activity names and the home location or a location of
  the two pools of the filler.
\<close>

definition lift_rows ::
  "(pystr \<Rightarrow> loc \<Rightarrow> time \<Rightarrow> time \<Rightarrow> 'r) \<Rightarrow> record_args list \<times> rng \<Rightarrow> 'r list \<times> rng" where
  "lift_rows f st = (map (\<lambda>(a, l, s, e). f a l s e) (fst st), snd st)"

definition lift_run ::
  "(pystr \<Rightarrow> loc \<Rightarrow> time \<Rightarrow> time \<Rightarrow> 'r) \<Rightarrow> py_error + record_args list \<times> rng
     \<Rightarrow> py_error + 'r list \<times> rng" where
  "lift_run f res = (case res of Inl err \<Rightarrow> Inl err | Inr st \<Rightarrow> Inr (lift_rows f st))"

definition lift_flag_run ::
  "(pystr \<Rightarrow> loc \<Rightarrow> time \<Rightarrow> time \<Rightarrow> 'r) \<Rightarrow> py_error + bool \<times> record_args list \<times> rng
     \<Rightarrow> py_error + bool \<times> 'r list \<times> rng" where
  "lift_flag_run f res =
     (case res of Inl err \<Rightarrow> Inl err | Inr (ate_lunch, st) \<Rightarrow> Inr (ate_lunch, lift_rows f st))"

definition record_ok :: "loc \<Rightarrow> record_args \<Rightarrow> bool" where
  "record_ok home_dorm r =
     (case r of (a, l, s, e) \<Rightarrow>
        a \<in> set ACTIVITIES \<and> l \<in> insert home_dorm (set LIBRARIES \<union> set CANTEENS))"

section \<open>Facts about times of day\<close>

lemma time_less_iff:
  "valid_time a \<Longrightarrow> valid_time b \<Longrightarrow> (a < b) = (to_seconds a < to_seconds b)"
  by (cases a; cases b) (auto simp: less_prod_def)

lemma time_le_iff:
  "valid_time a \<Longrightarrow> valid_time b \<Longrightarrow> (a \<le> b) = (to_seconds a \<le> to_seconds b)"
  by (cases a; cases b) (auto simp: less_eq_prod_def)

lemma to_seconds_bound: "valid_time a \<Longrightarrow> to_seconds a < 86400"
  by (cases a) auto

lemma valid_time_of_seconds: "valid_time (time_of_seconds n)"
  by (simp add: time_of_seconds_def)

lemma time_of_to_seconds: "valid_time a \<Longrightarrow> time_of_seconds (to_seconds a) = a"
proof (cases a)
  case (fields h m s)
  assume "valid_time a"
  with fields have b: "h < 24" "m < 60" "s < 60" by auto
  have e1: "h * 3600 + m * 60 + s = s + 60 * (h * 60 + m)" by simp
  have e2: "h * 3600 + m * 60 + s = (m * 60 + s) + 3600 * h" by simp
  have e3: "h * 60 + m = m + 60 * h" by simp
  have "m * 60 + s < 3600" using b by simp
  then have d1: "(h * 3600 + m * 60 + s) div 3600 = h"
    by (simp only: e2 div_mult_self2; simp)
  have d2: "(h * 3600 + m * 60 + s) div 60 = h * 60 + m"
    using b by (simp only: e1 div_mult_self2; simp)
  have d3: "(h * 3600 + m * 60 + s) mod 60 = s"
    using b by (simp only: e1 mod_mult_self2; simp)
  have d4: "(h * 60 + m) mod 60 = m"
    using b by (simp only: e3 mod_mult_self2; simp)
  show ?thesis using b by (simp only: fields time_of_seconds_def to_seconds.simps d1 d2 d3 d4; simp)
qed

lemma to_seconds_time_of: "n < 86400 \<Longrightarrow> to_seconds (time_of_seconds n) = n"
proof -
  assume n: "n < 86400"
  define q where "q = n div 3600"
  define r where "r = n mod 3600"
  define q2 where "q2 = r div 60"
  define r2 where "r2 = r mod 60"
  have nq: "n = r + 3600 * q" by (simp add: q_def r_def)
  have rq: "r = r2 + 60 * q2" by (simp add: q2_def r2_def)
  have rb: "r < 3600" by (simp add: r_def)
  have q2b: "q2 < 60" using rb by (simp add: q2_def)
  have r2b: "r2 < 60" by (simp add: r2_def)
  have qb: "q < 24" using n by (simp add: q_def)
  have n2: "n = r2 + 60 * (q2 + 60 * q)" using nq rq by simp
  have a1: "n div 3600 mod 24 = q" using qb by (simp add: q_def)
  have a2: "n div 60 = q2 + 60 * q" using r2b by (simp only: n2 div_mult_self2; simp)
  have a3: "n div 60 mod 60 = q2" using q2b by (simp only: a2 mod_mult_self2; simp)
  have a4: "n mod 60 = r2" using r2b by (simp only: n2 mod_mult_self2; simp)
  show ?thesis by (simp only: time_of_seconds_def to_seconds.simps a1 a3 a4; simp add: n2)
qed
section \<open>Facts about the serialised form\<close>

lemma dec_small: "n < 10 \<Longrightarrow> dec n = [48 + n]"
  by (simp add: dec.simps)

lemma dec_two: "10 \<le> n \<Longrightarrow> n < 100 \<Longrightarrow> dec n = [48 + n div 10, 48 + n mod 10]"
  by (subst dec.simps) (simp add: dec_small)

lemma fmt_02d: "n < 100 \<Longrightarrow> fmt_0d 2 n = [48 + n div 10, 48 + n mod 10]"
  by (cases "n < 10") (simp_all add: fmt_0d_def dec_small dec_two)

lemma isoformat_valid:
  "valid_time (h, m, s) \<Longrightarrow>
   isoformat (h, m, s) = [48 + h div 10, 48 + h mod 10, 58, 48 + m div 10, 48 + m mod 10, 58,
                          48 + s div 10, 48 + s mod 10]"
  by (simp add: fmt_02d)

lemma two_digits_value: "n < 100 \<Longrightarrow> (48 + n div 10 - 48) * 10 + (48 + n mod 10 - 48) = (n::nat)"
  by simp

lemma two_digits_ascii: "n < 100 \<Longrightarrow> ascii_digit (48 + n div 10) \<and> ascii_digit (48 + n mod 10)"
proof -
  assume "n < 100"
  then have "n div 10 < 10" by simp
  moreover have "n mod 10 < 10" by simp
  ultimately show ?thesis by (simp add: ascii_digit_def)
qed

lemma fromiso_iso: "valid_time t \<Longrightarrow> time_fromisoformat (isoformat t) = Some t"
proof (cases t)
  case (fields h m s)
  assume "valid_time t"
  with fields have b: "h < 24" "m < 60" "s < 60" by auto
  then have c: "h < 100" "m < 100" "s < 100" by auto
  show ?thesis
    using b two_digits_ascii[OF c(1)] two_digits_ascii[OF c(2)] two_digits_ascii[OF c(3)]
    by (simp add: fields fmt_02d c)
qed

lemma digit_pair:
  assumes "ascii_digit a" "ascii_digit b"
  shows "48 + ((a - 48) * 10 + (b - 48)) div 10 = a" "48 + ((a - 48) * 10 + (b - 48)) mod 10 = b"
proof -
  define x where "x = a - 48"
  define y where "y = b - 48"
  have a: "a = 48 + x" and x: "x < 10" using assms(1) by (auto simp: x_def ascii_digit_def)
  have b: "b = 48 + y" and y: "y < 10" using assms(2) by (auto simp: y_def ascii_digit_def)
  show "48 + ((a - 48) * 10 + (b - 48)) div 10 = a" using x y by (simp add: a b)
  show "48 + ((a - 48) * 10 + (b - 48)) mod 10 = b" using x y by (simp add: a b)
qed

lemma fromiso_Some: "time_fromisoformat m = Some t \<Longrightarrow> valid_time t \<and> m = isoformat t"
proof (induction m rule: time_fromisoformat.induct)
  case (1 a b c d e f g h)
  let ?hh = "(a - 48) * 10 + (b - 48)" and ?mm = "(d - 48) * 10 + (e - 48)"
    and ?ss = "(g - 48) * 10 + (h - 48)"
  from "1" have dg: "ascii_digit a" "ascii_digit b" "ascii_digit d" "ascii_digit e"
    "ascii_digit g" "ascii_digit h" and cl: "c = 58" "f = 58"
    by (auto split: if_splits)
  from "1" dg cl have rg: "?hh < 24" "?mm < 60" "?ss < 60" and t: "t = (?hh, ?mm, ?ss)"
    by (auto simp: Let_def split: if_splits)
  have "isoformat t = [a, b, c, d, e, f, g, h]"
    unfolding t using rg
    by (simp only: isoformat_valid valid_time.simps digit_pair[OF dg(1,2)] digit_pair[OF dg(3,4)]
          digit_pair[OF dg(5,6)] cl simp_thms)
  then show ?case using rg t by simp
qed simp_all

lemma findall_shaped: "m \<in> set (findall_hms s) \<Longrightarrow> hms_shaped m"
proof (induction s rule: findall_hms.induct)
  case (1 s)
  then show ?case
    by (subst (asm) (3) findall_hms.simps) (auto split: if_splits)
qed

lemma findall_empty_iff:
  "findall_hms s = [] \<longleftrightarrow> (\<forall>i. \<not> hms_shaped (take 8 (drop i s)))"
proof (induction s rule: findall_hms.induct)
  case (1 s)
  show ?case
  proof (cases "s = []")
    case True
    then show ?thesis by (simp add: findall_hms.simps)
  next
    case ne: False
    show ?thesis
    proof (cases "hms_shaped (take 8 s)")
      case True
      then have "findall_hms s \<noteq> []" using ne by (simp add: findall_hms.simps)
      moreover have "hms_shaped (take 8 (drop 0 s))" using True by simp
      ultimately show ?thesis by blast
    next
      case False
      have eq: "findall_hms s = findall_hms (tl s)"
        using ne False by (simp add: findall_hms.simps)
      have ih: "findall_hms (tl s) = [] \<longleftrightarrow> (\<forall>i. \<not> hms_shaped (take 8 (drop i (tl s))))"
        using "1.IH"(2)[OF ne False] .
      have "(\<forall>i. \<not> hms_shaped (take 8 (drop i s))) \<longleftrightarrow>
            (\<forall>i. \<not> hms_shaped (take 8 (drop i (tl s))))"
      proof
        assume a: "\<forall>i. \<not> hms_shaped (take 8 (drop i s))"
        show "\<forall>i. \<not> hms_shaped (take 8 (drop i (tl s)))"
        proof
          fix i
          have "drop i (tl s) = drop (Suc i) s" by (simp add: drop_Suc)
          then show "\<not> hms_shaped (take 8 (drop i (tl s)))" using a by metis
        qed
      next
        assume a: "\<forall>i. \<not> hms_shaped (take 8 (drop i (tl s)))"
        show "\<forall>i. \<not> hms_shaped (take 8 (drop i s))"
        proof
          fix i
          show "\<not> hms_shaped (take 8 (drop i s))"
          proof (cases i)
            case 0
            then show ?thesis using False by simp
          next
            case (Suc j)
            then have "drop i s = drop j (tl s)" by (simp add: drop_Suc)
            then show ?thesis using a by metis
          qed
        qed
      qed
      then show ?thesis using eq ih by simp
    qed
  qed
qed

lemma parse_Some_iff:
  "parse_start_end_from_string s = Some (a, b) \<longleftrightarrow>
     (\<exists>m1 m2. findall_hms s = [m1, m2] \<and> time_fromisoformat m1 = Some a
        \<and> time_fromisoformat m2 = Some b)"
proof
  assume p: "parse_start_end_from_string s = Some (a, b)"
  then have l: "length (findall_hms s) = 2"
    by (auto simp: parse_start_end_from_string_def Let_def split: if_splits)
  then obtain m1 m2 where m: "findall_hms s = [m1, m2]"
    by (metis (no_types) length_0_conv length_Suc_conv numeral_2_eq_2)
  from p show "\<exists>m1 m2. findall_hms s = [m1, m2] \<and> time_fromisoformat m1 = Some a
        \<and> time_fromisoformat m2 = Some b"
    by (auto simp: parse_start_end_from_string_def m split: option.splits)
next
  assume "\<exists>m1 m2. findall_hms s = [m1, m2] \<and> time_fromisoformat m1 = Some a
        \<and> time_fromisoformat m2 = Some b"
  then show "parse_start_end_from_string s = Some (a, b)"
    by (auto simp: parse_start_end_from_string_def)
qed

lemmas parse_eval = parse_start_end_from_string_def findall_hms.simps re_digit_def ascii_digit_def

section \<open>Time Range Parser: failure policy\<close>

text \<open>
  Claim C9. For every input string the parser either fails with the pair of \<open>None\<close>
  or returns a pair of times, and never raises. The matches are those of
  \<open>re.findall\<close>, taken from the left without overlap. The parser fails when the
  number of matches is not two, in particular when no position of the string carries the
  shape \<open>HH:MM:SS\<close>; every match has that shape; it fails when some match is not a
  valid time of day; and it returns \<open>(a, b)\<close> exactly when there are two matches and
  they parse to \<open>a\<close> and \<open>b\<close>, which is exactly when \<open>a\<close> and \<open>b\<close> are valid
  times of day and the two matches are their \<open>HH:MM:SS\<close> forms.
\<close>

theorem parser_failure_policy:
  "(length (findall_hms s) \<noteq> 2 \<longrightarrow> parse_start_end_from_string s = None)
   \<and> ((\<forall>i. \<not> hms_shaped (take 8 (drop i s))) \<longrightarrow> parse_start_end_from_string s = None)
   \<and> (\<forall>m \<in> set (findall_hms s). hms_shaped m)
   \<and> ((\<exists>m \<in> set (findall_hms s). time_fromisoformat m = None)
        \<longrightarrow> parse_start_end_from_string s = None)
   \<and> (parse_start_end_from_string s = Some (a, b) \<longleftrightarrow>
        (\<exists>m1 m2. findall_hms s = [m1, m2] \<and> time_fromisoformat m1 = Some a
           \<and> time_fromisoformat m2 = Some b))
   \<and> (parse_start_end_from_string s = Some (a, b) \<longleftrightarrow>
        valid_time a \<and> valid_time b \<and> findall_hms s = [isoformat a, isoformat b])"
proof (intro conjI)
  show "length (findall_hms s) \<noteq> 2 \<longrightarrow> parse_start_end_from_string s = None"
    by (simp add: parse_start_end_from_string_def)
  show "(\<forall>i. \<not> hms_shaped (take 8 (drop i s))) \<longrightarrow> parse_start_end_from_string s = None"
  proof
    assume "\<forall>i. \<not> hms_shaped (take 8 (drop i s))"
    then have "findall_hms s = []" using findall_empty_iff[of s] by blast
    then show "parse_start_end_from_string s = None"
      by (simp add: parse_start_end_from_string_def)
  qed
  show "\<forall>m \<in> set (findall_hms s). hms_shaped m"
    using findall_shaped by blast
  show "(\<exists>m \<in> set (findall_hms s). time_fromisoformat m = None)
        \<longrightarrow> parse_start_end_from_string s = None"
  proof
    assume ex: "\<exists>m \<in> set (findall_hms s). time_fromisoformat m = None"
    show "parse_start_end_from_string s = None"
    proof (cases "parse_start_end_from_string s")
      case None
      then show ?thesis .
    next
      case (Some p)
      obtain x y where "p = (x, y)" by (cases p)
      with Some parse_Some_iff[of s x y] ex show ?thesis by auto
    qed
  qed
  show "parse_start_end_from_string s = Some (a, b) \<longleftrightarrow>
        (\<exists>m1 m2. findall_hms s = [m1, m2] \<and> time_fromisoformat m1 = Some a
           \<and> time_fromisoformat m2 = Some b)"
    by (rule parse_Some_iff)
  show "parse_start_end_from_string s = Some (a, b) \<longleftrightarrow>
        valid_time a \<and> valid_time b \<and> findall_hms s = [isoformat a, isoformat b]"
    unfolding parse_Some_iff using fromiso_Some fromiso_iso by blast
qed

theorem parser_failure_policy_witness:
  "parse_start_end_from_string (ascii ''104 [1900-01-01 08:00:00, 1900-01-01 09:35:00]'')
     = Some ((8, 0, 0), (9, 35, 0))
   \<and> findall_hms (ascii ''104 [1900-01-01 08:00:00, 1900-01-01 09:35:00]'')
     = [isoformat (8, 0, 0), isoformat (9, 35, 0)]
   \<and> length (findall_hms (ascii ''08:00:00'')) \<noteq> 2
   \<and> parse_start_end_from_string (ascii ''08:00:00'') = None
   \<and> (\<exists>m \<in> set (findall_hms (ascii ''08:00:00 25:00:00'')). time_fromisoformat m = None)
   \<and> parse_start_end_from_string (ascii ''08:00:00 25:00:00'') = None"
proof -
  have p: "parse_start_end_from_string (ascii ''104 [1900-01-01 08:00:00, 1900-01-01 09:35:00]'')
     = Some ((8, 0, 0), (9, 35, 0))"
    by (simp add: parse_eval)
  have l: "length (findall_hms (ascii ''08:00:00'')) \<noteq> 2"
    by (simp add: parse_eval)
  have e: "\<exists>m \<in> set (findall_hms (ascii ''08:00:00 25:00:00'')). time_fromisoformat m = None"
    by (simp add: parse_eval)
  show ?thesis
    using p l e
      parser_failure_policy[of "ascii ''104 [1900-01-01 08:00:00, 1900-01-01 09:35:00]''"
         "(8, 0, 0)" "(9, 35, 0)"]
      parser_failure_policy[of "ascii ''08:00:00''" "(0,0,0)" "(0,0,0)"]
      parser_failure_policy[of "ascii ''08:00:00 25:00:00''" "(0,0,0)" "(0,0,0)"]
    by blast
qed


section \<open>The row builder\<close>

lemma bind_err_Inr: "bind_err (Inr x) f = f x"
  by (simp add: bind_err_def)

lemma bind_err_Inl: "bind_err (Inl err) f = Inl err"
  by (simp add: bind_err_def)

lemma pad_event_eq: "pad_event n ev = ev @ replicate (n - length ev) (ascii ''-'')"
proof (induction n ev rule: pad_event.induct)
  case (1 n ev)
  show ?case
  proof (cases "length ev < n")
    case True
    then have "n - length ev = Suc (n - Suc (length ev))" by simp
    then show ?thesis
      using True "1.IH"[OF True]
      by (subst pad_event.simps) (simp add: replicate_app_Cons_same)
  next
    case False
    then show ?thesis by (subst pad_event.simps) simp
  qed
qed

lemma event_fields_eq:
  "event_fields day n a (lt, ln) s e
     = take n ([a, day, ascii ''-'', ascii ''-'', ascii ''-'', ascii ''-'', lt, ln,
                format_time_range s e] @ replicate (n - 9) (ascii ''-''))"
proof -
  have l: "length [a, day, ascii ''-'', ascii ''-'', ascii ''-'', ascii ''-'', lt, ln,
                format_time_range s e] = 9"
    by simp
  show ?thesis
    by (simp only: event_fields_def pad_event_eq Let_def prod.case l)
qed

lemma event_fields_length: "length (event_fields day n a l s e) = n"
proof -
  obtain lt ln where l: "l = (lt, ln)" by (cases l)
  have "length [a, day, ascii ''-'', ascii ''-'', ascii ''-'', ascii ''-'', lt, ln,
                format_time_range s e] = 9"
    by simp
  then show ?thesis
    unfolding l event_fields_eq by (simp only: length_take length_append length_replicate; simp)
qed

text \<open>
  The builder returns the row when the header has at least eight columns, and raises
  \<open>IndexError\<close> when it has fewer.
\<close>

lemma create_new_row_returns:
  "8 \<le> n \<Longrightarrow> create_new_row day n a l s e = Inr (event_fields day n a l s e)"
  by (simp only: create_new_row_def Let_def subscript_def event_fields_length;
      simp add: bind_err_def)

lemma create_new_row_raises:
  "n \<le> 7 \<Longrightarrow> create_new_row day n a l s e = Inl IndexError"
  by (simp only: create_new_row_def Let_def subscript_def event_fields_length;
      simp add: bind_err_def)

lemma create_new_row_cases:
  "create_new_row day n a l s e
     = (if n \<le> 7 then Inl IndexError else Inr (event_fields day n a l s e))"
  by (simp add: create_new_row_returns create_new_row_raises)

lemma create_new_row_returning:
  "8 \<le> n \<Longrightarrow> create_new_row day n = returning (event_fields day n)"
  by (intro ext) (simp add: create_new_row_returns returning_def)


section \<open>Gap Filler: runs in which the builder returns\<close>

lemmas const_eval = DAY_START_def DAY_END_def LUNCH_START_def LUNCH_END_def DINNER_START_def
  DINNER_END_def

lemmas order_eval = less_prod_def less_eq_prod_def

lemma append_random_returning:
  "append_random (returning f) a pool x y (fs, g)
     = Inr (fs @ [f a (pool ! (shd g mod length pool)) x y], stl g)"
  by (simp add: append_random_def random_choice_def returning_def bind_err_Inr)

lemma append_home_returning:
  "append_home (returning f) a home x y (fs, g) = Inr (fs @ [f a home x y], g)"
  by (simp add: append_home_def returning_def bind_err_Inr)

lemmas fill_eval = fill_records_def fill_free_time_with_def interior_slots_def
  append_home_returning append_random_returning interior_step_def last_slot_step_def
  bind_err_Inr total_seconds_between_def add_seconds_def time_of_seconds_def Let_def

lemma interior_step_shape:
  "\<exists>out g'. interior_step (returning tuple_row) (ate, fs, g) sl
               = Inr (ate \<or> lunch_overlaps sl, fs @ out, g')
      \<and> map shape_of out = interior_shape ate sl"
proof -
  obtain s e where sl: "sl = (s, e)" by (cases sl)
  show ?thesis
    unfolding sl
    by (auto simp: interior_step_def append_random_returning bind_err_Inr meal_end_def Let_def)
qed

lemma interior_loop_shape:
  "\<exists>out g'. interior_loop (returning tuple_row) (ate, fs, g) sls
       = Inr (ate \<or> list_ex lunch_overlaps sls, fs @ out, g')
      \<and> map shape_of out = interiors_shape ate sls"
proof (induction sls arbitrary: ate fs g)
  case Nil
  then show ?case by simp
next
  case (Cons sl sls)
  obtain out g' where st: "interior_step (returning tuple_row) (ate, fs, g) sl
       = Inr (ate \<or> lunch_overlaps sl, fs @ out, g')"
    and sh: "map shape_of out = interior_shape ate sl"
    using interior_step_shape by blast
  obtain out2 g2 where f: "interior_loop (returning tuple_row)
         (ate \<or> lunch_overlaps sl, fs @ out, g') sls
       = Inr ((ate \<or> lunch_overlaps sl) \<or> list_ex lunch_overlaps sls, (fs @ out) @ out2, g2)"
    and sh2: "map shape_of out2 = interiors_shape (ate \<or> lunch_overlaps sl) sls"
    using Cons.IH by blast
  have "interior_loop (returning tuple_row) (ate, fs, g) (sl # sls)
       = Inr (ate \<or> list_ex lunch_overlaps (sl # sls), fs @ (out @ out2), g2)"
    by (simp add: st f bind_err_Inr)
  moreover have "map shape_of (out @ out2) = interiors_shape ate (sl # sls)"
    by (simp add: sh sh2)
  ultimately show ?case by blast
qed

lemma last_slot_shape:
  "\<exists>out g'. last_slot_step (returning tuple_row) home sl (fs, g) = Inr (fs @ out, g')
      \<and> map shape_of out = last_shape sl"
proof -
  obtain s e where sl: "sl = (s, e)" by (cases sl)
  show ?thesis
    unfolding sl
    by (auto simp: last_slot_step_def append_random_returning append_home_returning
          bind_err_Inr meal_end_def Let_def)
qed

text \<open>A run in which the builder returns never raises.\<close>

lemma fill_run:
  "\<exists>rs g'. fill_free_time_with (returning tuple_row) free_slots home g = Inr (rs, g')
      \<and> map shape_of rs = fill_shape free_slots"
proof (cases "free_slots = []")
  case True
  then show ?thesis by (simp add: fill_free_time_with_def fill_shape_def)
next
  case False
  obtain s e where h: "hd free_slots = (s, e)" by (cases "hd free_slots")
  have n0: "free_slots ! 0 = (s, e)" using False h by (simp add: hd_conv_nth)
  obtain out g' where f: "interior_loop (returning tuple_row)
         (False, [(ACT_WAKE, home, s, e)], g) (interior_slots free_slots)
       = Inr (False \<or> list_ex lunch_overlaps (interior_slots free_slots),
              [(ACT_WAKE, home, s, e)] @ out, g')"
    and sh: "map shape_of out = interiors_shape False (interior_slots free_slots)"
    using interior_loop_shape by blast
  show ?thesis
  proof (cases "length free_slots > 1")
    case True
    obtain out2 g2 where l: "last_slot_step (returning tuple_row) home (last free_slots)
          ((ACT_WAKE, home, s, e) # out, g') = Inr (((ACT_WAKE, home, s, e) # out) @ out2, g2)"
      and sh2: "map shape_of out2 = last_shape (last free_slots)"
      using last_slot_shape by blast
    show ?thesis
      using True False
      by (simp add: fill_free_time_with_def fill_shape_def n0 h append_home_returning
            bind_err_Inr f l sh sh2)
  next
    case one: False
    then have len: "length free_slots = 1" using False by (cases free_slots) auto
    show ?thesis
      using one False len
      by (simp add: fill_free_time_with_def fill_shape_def n0 h append_home_returning
            bind_err_Inr f sh)
  qed
qed

lemma fill_records_run:
  "\<exists>g'. fill_free_time_with (returning tuple_row) free_slots home g
          = Inr (fill_records free_slots home g, g')"
proof -
  obtain rs g' where "fill_free_time_with (returning tuple_row) free_slots home g = Inr (rs, g')"
    using fill_run by blast
  then show ?thesis by (simp add: fill_records_def)
qed

lemma fill_records_shape: "map shape_of (fill_records free_slots home g) = fill_shape free_slots"
proof -
  obtain rs g' where "fill_free_time_with (returning tuple_row) free_slots home g = Inr (rs, g')"
    and "map shape_of rs = fill_shape free_slots"
    using fill_run by blast
  then show ?thesis by (simp add: fill_records_def)
qed


section \<open>Gap Filler: a single free interval\<close>

text \<open>
  Claim C1, at the input that breaks it. Coverage preservation asks that no instant be
  covered by two synthetic records. With the single free interval from 07:00 to 22:00 the
  filler first emits the record of the first interval and then, in the branch for exactly
  one interval, a second record over the same interval: the two record intervals are both
  the whole input interval, and the instant 12:00:00, which lies in the input interval
  once, lies in two record intervals.
\<close>

theorem single_slot_covered_twice:
  "map record_interval (fill_records [(DAY_START, DAY_END)] home_dorm g)
     = [(DAY_START, DAY_END), (DAY_START, DAY_END)]
   \<and> cover_count [(DAY_START, DAY_END)] (12, 0, 0) = 1
   \<and> cover_count (map record_interval (fill_records [(DAY_START, DAY_END)] home_dorm g))
        (12, 0, 0) = 2"
  by (simp add: fill_records_def fill_free_time_with_def interior_slots_def
        append_home_returning bind_err_Inr cover_count_def const_eval)

text \<open>
  Claim C2, at the input that breaks it. For exactly one free interval the claim asks for
  exactly one record, labelled rest/free time. The filler makes two records for every
  single interval: the wake-up record of the first interval and the rest record, both at
  the home location and both spanning the whole interval. With a header of at least eight
  columns, nine in the table of the script, it returns the two rows of these records; with
  fewer columns the first call of the row builder raises.
\<close>

theorem single_slot_emits_two_records:
  "fill_records [(s, e)] home_dorm g
     = [(ACT_WAKE, home_dorm, s, e), (ACT_REST, home_dorm, s, e)]
   \<and> fill_free_time day_name [(s, e)] home_dorm n g
     = (if n \<le> 7 then Inl IndexError
        else Inr ([event_fields day_name n ACT_WAKE home_dorm s e,
                   event_fields day_name n ACT_REST home_dorm s e], g))
   \<and> ACT_WAKE \<noteq> ACT_REST"
proof (intro conjI)
  show "fill_records [(s, e)] home_dorm g
     = [(ACT_WAKE, home_dorm, s, e), (ACT_REST, home_dorm, s, e)]"
    by (simp add: fill_records_def fill_free_time_with_def interior_slots_def
          append_home_returning bind_err_Inr)
  show "fill_free_time day_name [(s, e)] home_dorm n g
     = (if n \<le> 7 then Inl IndexError
        else Inr ([event_fields day_name n ACT_WAKE home_dorm s e,
                   event_fields day_name n ACT_REST home_dorm s e], g))"
  proof (cases "n \<le> 7")
    case True
    then show ?thesis
      by (simp add: fill_free_time_def fill_free_time_with_def append_home_def
            create_new_row_raises bind_err_Inl)
  next
    case False
    then have "8 \<le> n" by simp
    then show ?thesis
      using False
      by (simp add: fill_free_time_def fill_free_time_with_def interior_slots_def
            create_new_row_returning append_home_returning bind_err_Inr)
  qed
  show "ACT_WAKE \<noteq> ACT_REST" by (simp add: ACT_WAKE_def ACT_REST_def)
qed


section \<open>Free-Slot Computer: the algorithm\<close>

lemma free_slots_loop_step:
  "free_slots_loop (c, fs) ((s, e, r) # cs) =
     free_slots_loop (max c e, if c < s then fs @ [(c, s)] else fs) cs"
  by (auto simp: max_def Let_def)

lemma max_alt: "(if (c::time) < e then e else c) = max c e"
  by (auto simp: max_def)

lemma loop_eq: "free_slots_loop (c, fs) cs =
   (foldl max c (map (\<lambda>(s, e, r). e) cs), fs @ scan_body c cs)"
proof (induction cs arbitrary: c fs)
  case Nil
  then show ?case by simp
next
  case (Cons x cs)
  obtain s e r where x: "x = (s, e, r)" by (cases x)
  show ?case unfolding x free_slots_loop_step Cons.IH by simp
qed

lemma spec_scan_body: "spec_scan c cs =
   scan_body c cs @ (let cur = foldl max c (map (\<lambda>(s, e, r). e) cs)
                     in if cur < DAY_END then [(cur, DAY_END)] else [])"
  by (induction c cs rule: spec_scan.induct) simp_all

lemma print_free_slots_spec: "print_free_slots day_name classes = spec_free_slots classes"
  by (simp add: print_free_slots_def spec_free_slots_def loop_eq spec_scan_body Let_def)

lemma spec_scan_bounds: "(a, b) \<in> set (spec_scan c cs) \<Longrightarrow> c \<le> a \<and> a < b"
proof (induction c cs rule: spec_scan.induct)
  case (1 cursor)
  then show ?case by (auto split: if_splits)
next
  case (2 cursor s e r cs)
  then show ?case by (fastforce split: if_splits)
qed

lemma spec_scan_ordered:
  "\<forall>(s, e, r) \<in> set cs. s \<le> e \<Longrightarrow> sorted_wrt (\<lambda>x y. snd x \<le> fst y) (spec_scan c cs)"
proof (induction c cs rule: spec_scan.induct)
  case (1 cursor)
  then show ?case by simp
next
  case (2 cursor s e r cs)
  have se: "s \<le> e" using "2.prems" by simp
  have ih: "sorted_wrt (\<lambda>x y. snd x \<le> fst y) (spec_scan (max cursor e) cs)"
    using "2.IH" "2.prems" by simp
  have "\<forall>y \<in> set (spec_scan (max cursor e) cs). s \<le> fst y"
  proof
    fix y assume y: "y \<in> set (spec_scan (max cursor e) cs)"
    obtain a b where ab: "y = (a, b)" by (cases y)
    from spec_scan_bounds[of a b "max cursor e" cs] y ab have "max cursor e \<le> a" by simp
    then have "e \<le> a" by simp
    then show "s \<le> fst y" using se ab by auto
  qed
  then show ?case using ih by simp
qed

lemma ordered_distinct:
  "sorted_wrt (\<lambda>x y. snd x \<le> fst y) xs \<Longrightarrow> \<forall>(a, b) \<in> set xs. a < b \<Longrightarrow> distinct xs"
  for xs :: "slot list"
proof (induction xs)
  case Nil
  then show ?case by simp
next
  case (Cons x xs)
  have "x \<notin> set xs"
  proof
    assume "x \<in> set xs"
    then have "snd x \<le> fst x" using Cons.prems(1) by auto
    moreover have "fst x < snd x" using Cons.prems(2) by (cases x) auto
    ultimately show False by simp
  qed
  then show ?case using Cons by simp
qed

text \<open>
  Claim C5. One round of the loop over a busy interval from \<open>s\<close> to \<open>e\<close> with cursor
  \<open>c\<close> emits the free interval from \<open>c\<close> to \<open>s\<close> exactly when \<open>c < s\<close> and
  continues with the cursor \<open>max c e\<close>, which is never before \<open>c\<close>; the whole
  computation is the algorithm of the specification, started at the beginning of the day
  and closed by the interval from the cursor to the end of the day exactly when the cursor
  is strictly before it. For every input, sorted or not, overlapping or not, every free
  interval has positive length. When the busy intervals are intervals (start not after
  end), no free interval occurs twice: each ends no later than the next one starts. No busy
  interval gives the single free interval of the whole day, and one busy interval that
  covers the day gives none.
\<close>

theorem free_slot_algorithm:
  "free_slots_loop (c, fs) ((s, e, r) # cs) =
     free_slots_loop (max c e, if c < s then fs @ [(c, s)] else fs) cs
   \<and> c \<le> max c e
   \<and> print_free_slots day_name classes = spec_free_slots classes
   \<and> (\<forall>(a, b) \<in> set (print_free_slots day_name classes). a < b)
   \<and> ((\<forall>(s, e, r) \<in> set classes. s \<le> e) \<longrightarrow>
        distinct (print_free_slots day_name classes)
        \<and> sorted_wrt (\<lambda>x y. snd x \<le> fst y) (print_free_slots day_name classes))
   \<and> print_free_slots day_name [] = [(DAY_START, DAY_END)]
   \<and> (s \<le> DAY_START \<and> DAY_END \<le> e \<longrightarrow> print_free_slots day_name [(s, e, r)] = [])"
proof (intro conjI)
  show "free_slots_loop (c, fs) ((s, e, r) # cs) =
     free_slots_loop (max c e, if c < s then fs @ [(c, s)] else fs) cs"
    by (rule free_slots_loop_step)
  show "c \<le> max c e" by simp
  show "print_free_slots day_name classes = spec_free_slots classes"
    by (rule print_free_slots_spec)
  show pos: "\<forall>(a, b) \<in> set (print_free_slots day_name classes). a < b"
    unfolding print_free_slots_spec spec_free_slots_def using spec_scan_bounds by blast
  show "(\<forall>(s, e, r) \<in> set classes. s \<le> e) \<longrightarrow>
        distinct (print_free_slots day_name classes)
        \<and> sorted_wrt (\<lambda>x y. snd x \<le> fst y) (print_free_slots day_name classes)"
  proof
    assume a: "\<forall>(s, e, r) \<in> set classes. s \<le> e"
    have o: "sorted_wrt (\<lambda>x y. snd x \<le> fst y) (print_free_slots day_name classes)"
      unfolding print_free_slots_spec spec_free_slots_def by (rule spec_scan_ordered[OF a])
    show "distinct (print_free_slots day_name classes)
        \<and> sorted_wrt (\<lambda>x y. snd x \<le> fst y) (print_free_slots day_name classes)"
      using o ordered_distinct[OF o pos] by simp
  qed
  show "print_free_slots day_name [] = [(DAY_START, DAY_END)]"
    by (simp add: print_free_slots_def DAY_START_def DAY_END_def less_prod_def)
  show "s \<le> DAY_START \<and> DAY_END \<le> e \<longrightarrow> print_free_slots day_name [(s, e, r)] = []"
  proof
    assume a: "s \<le> DAY_START \<and> DAY_END \<le> e"
    have "DAY_START < DAY_END" by (simp add: DAY_START_def DAY_END_def less_prod_def)
    then have "DAY_START < e" using a by auto
    then show "print_free_slots day_name [(s, e, r)] = []"
      using a by (simp add: print_free_slots_def Let_def not_less)
  qed
qed


theorem free_slot_algorithm_witness:
  "(9, 0, 0) \<le> ((10, 35, 0) :: time)
   \<and> print_free_slots [] [((9, 0, 0), (10, 35, 0), [])]
       = [((7, 0, 0), (9, 0, 0)), ((10, 35, 0), (22, 0, 0))]
   \<and> distinct (print_free_slots [] [((9, 0, 0), (10, 35, 0), [])])
   \<and> (6, 0, 0) \<le> DAY_START \<and> DAY_END \<le> (23, 0, 0)
   \<and> print_free_slots [] [((6, 0, 0), (23, 0, 0), [])] = []"
proof -
  have h1: "\<forall>(s, e, r) \<in> set ([((9, 0, 0), (10, 35, 0), [])] :: class_entry list). s \<le> e"
    by (simp add: less_eq_prod_def)
  have h2: "(6, 0, 0) \<le> DAY_START \<and> DAY_END \<le> (23, 0, 0)"
    by (simp add: const_eval less_eq_prod_def)
  have v: "print_free_slots [] [((9, 0, 0), (10, 35, 0), [])]
       = [((7, 0, 0), (9, 0, 0)), ((10, 35, 0), (22, 0, 0))]"
    by (simp add: print_free_slots_def const_eval less_prod_def)
  note t = free_slot_algorithm[of "(7, 0, 0)" "[]" "(6, 0, 0)" "(23, 0, 0)" "[]" "[]" "[]"
        "[((9, 0, 0), (10, 35, 0), [])]"]
  from t have d: "(\<forall>(s, e, r) \<in> set ([((9, 0, 0), (10, 35, 0), [])] :: class_entry list). s \<le> e) \<longrightarrow>
        distinct (print_free_slots [] [((9, 0, 0), (10, 35, 0), [])])
        \<and> sorted_wrt (\<lambda>x y. snd x \<le> fst y) (print_free_slots [] [((9, 0, 0), (10, 35, 0), [])])"
    by (elim conjE)
  from t have c: "(6, 0, 0) \<le> DAY_START \<and> DAY_END \<le> (23, 0, 0)
      \<longrightarrow> print_free_slots [] [((6, 0, 0), (23, 0, 0), [])] = []"
    by (elim conjE)
  from d h1 have d': "distinct (print_free_slots [] [((9, 0, 0), (10, 35, 0), [])])"
    by (elim impE conjE)
  from c h2 have c': "print_free_slots [] [((6, 0, 0), (23, 0, 0), [])] = []"
    by (elim impE)
  have h0: "(9, 0, 0) \<le> ((10, 35, 0) :: time)" by (simp add: less_eq_prod_def)
  show ?thesis using h0 h2 v d' c' by (intro conjI) (elim conjE | assumption)+
qed



section \<open>Free-Slot Computer: tiling of the day\<close>

lemma tiles_le: "tiles a b ivs \<Longrightarrow> a \<le> b"
proof (induction ivs arbitrary: a)
  case Nil
  then show ?case by simp
next
  case (Cons iv ivs)
  obtain s e where iv: "iv = (s, e)" by (cases iv)
  from Cons.prems iv have "a \<le> e" "tiles e b ivs" by auto
  with Cons.IH[of e] show ?case by auto
qed

lemma tiles_cover_count:
  "tiles a b ivs \<Longrightarrow> cover_count ivs t = (if a \<le> t \<and> t < b then 1 else 0)"
proof (induction ivs arbitrary: a)
  case Nil
  then show ?case by (auto simp: cover_count_def)
next
  case (Cons iv ivs)
  obtain s e where iv: "iv = (s, e)" by (cases iv)
  from Cons.prems iv have ae: "s = a" "a \<le> e" and tl: "tiles e b ivs" by auto
  have eb: "e \<le> b" using tiles_le[OF tl] .
  have ih: "cover_count ivs t = (if e \<le> t \<and> t < b then 1 else 0)"
    using Cons.IH[OF tl] .
  have "cover_count (iv # ivs) t = (if a \<le> t \<and> t < e then 1 else 0) + cover_count ivs t"
    by (simp add: cover_count_def iv ae)
  then show ?case using ih ae eb by auto
qed

lemma tiles_starts: "tiles a b ivs \<Longrightarrow> sorted (map fst ivs) \<and> (\<forall>iv \<in> set ivs. a \<le> fst iv)"
proof (induction ivs arbitrary: a)
  case Nil
  then show ?case by simp
next
  case (Cons iv ivs)
  obtain s e where iv: "iv = (s, e)" by (cases iv)
  from Cons.prems iv have ae: "s = a" "a \<le> e" and tl: "tiles e b ivs" by auto
  from Cons.IH[OF tl] have s: "sorted (map fst ivs)" and g: "\<forall>iv \<in> set ivs. e \<le> fst iv" by auto
  from g ae have "\<forall>x \<in> set ivs. a \<le> fst x" by (meson order_trans)
  then show ?case using s iv ae by simp
qed

text \<open>The conditions of the tiling property, relative to a cursor.\<close>

lemma timeline_tiles:
  assumes "c \<le> DAY_END"
    and "\<forall>(s, e, r) \<in> set cs. c \<le> s \<and> s \<le> e \<and> e \<le> DAY_END"
    and "non_overlapping cs"
  shows "tiles c DAY_END (timeline c cs)"
  using assms
proof (induction cs arbitrary: c)
  case Nil
  then show ?case by auto
next
  case (Cons x cs)
  obtain s e r where x: "x = (s, e, r)" by (cases x)
  from Cons.prems(2) x have cs: "c \<le> s" and se: "s \<le> e" and ed: "e \<le> DAY_END" by auto
  have "c \<le> e" using cs se by (rule order_trans)
  then have m: "max c e = e" by (simp add: max_absorb2)
  have rest: "\<forall>(s', e', r') \<in> set cs. e \<le> s' \<and> s' \<le> e' \<and> e' \<le> DAY_END"
    using Cons.prems(2,3) x by (auto simp: non_overlapping_def)
  have no: "non_overlapping cs" using Cons.prems(3) by (simp add: non_overlapping_def)
  have ih: "tiles e DAY_END (timeline e cs)" by (rule Cons.IH[OF ed rest no])
  show ?case using ih cs se by (auto simp: x m)
qed

lemma timeline_mset:
  "mset (timeline c cs) = mset (busy_intervals cs @ spec_scan c cs)"
  by (induction c cs rule: timeline.induct) (simp_all add: busy_intervals_def)

lemma timeline_filter:
  assumes "\<forall>(s, e, r) \<in> set cs. c \<le> s \<and> s \<le> e"
    and "non_overlapping cs"
  shows "filter (\<lambda>x. k = fst x) (timeline c cs)
         = filter (\<lambda>x. k = fst x) (busy_intervals cs @ spec_scan c cs)"
  using assms
proof (induction cs arbitrary: c)
  case Nil
  then show ?case by (simp add: busy_intervals_def)
next
  case (Cons x cs)
  obtain s e r where x: "x = (s, e, r)" by (cases x)
  from Cons.prems(1) x have cs: "c \<le> s" and se: "s \<le> e" by auto
  have "c \<le> e" using cs se by (rule order_trans)
  then have m: "max c e = e" by (simp add: max_absorb2)
  have rest: "\<forall>(s', e', r') \<in> set cs. e \<le> s' \<and> s' \<le> e'"
    using Cons.prems x by (auto simp: non_overlapping_def)
  have no: "non_overlapping cs" using Cons.prems(2) by (simp add: non_overlapping_def)
  have ih: "filter (\<lambda>x. k = fst x) (timeline e cs)
         = filter (\<lambda>x. k = fst x) (busy_intervals cs @ spec_scan e cs)"
    by (rule Cons.IH[OF rest no])
  show ?case
  proof (cases "c < s \<and> k = c")
    case True
    have "\<forall>iv \<in> set (busy_intervals cs). k \<noteq> fst iv"
    proof
      fix iv assume "iv \<in> set (busy_intervals cs)"
      then obtain s' e' r' where "(s', e', r') \<in> set cs" and iv: "iv = (s', e')"
        by (auto simp: busy_intervals_def)
      with rest have "e \<le> s'" by auto
      with se True have "c < s'" by auto
      then show "k \<noteq> fst iv" using True iv by auto
    qed
    then have e: "filter (\<lambda>x. k = fst x) (busy_intervals cs) = []"
      by (simp add: filter_empty_conv)
    have b: "busy_intervals ((s, e, r) # cs) = (s, e) # busy_intervals cs"
      by (simp add: busy_intervals_def)
    from True have ne: "c \<noteq> s" "c < s" "k = c" by auto
    show ?thesis using ih e by (simp add: x m b ne)
  next
    case False
    have b: "busy_intervals ((s, e, r) # cs) = (s, e) # busy_intervals cs"
      by (simp add: busy_intervals_def)
    show ?thesis using False ih by (auto simp: x m b)
  qed
qed

lemma sorted_timeline:
  assumes "sorted_by_start classes" "within_day classes" "non_overlapping classes"
  shows "sort_key fst (busy_intervals classes @ print_free_slots day_name classes)
         = timeline DAY_START classes"
proof -
  have d: "DAY_START \<le> DAY_END" by (simp add: DAY_START_def DAY_END_def less_eq_prod_def)
  have w: "\<forall>(s, e, r) \<in> set classes. DAY_START \<le> s \<and> s \<le> e \<and> e \<le> DAY_END"
    using assms(2) by (auto simp: within_day_def list_all_iff)
  then have w2: "\<forall>(s, e, r) \<in> set classes. DAY_START \<le> s \<and> s \<le> e" by auto
  have t: "tiles DAY_START DAY_END (timeline DAY_START classes)"
    by (rule timeline_tiles[OF d w assms(3)])
  have s: "sorted (map fst (timeline DAY_START classes))" using tiles_starts[OF t] by simp
  show ?thesis
    unfolding print_free_slots_spec spec_free_slots_def
    by (rule properties_for_sort_key)
       (simp_all add: timeline_mset timeline_filter[OF w2 assms(3)] s)
qed

text \<open>
  Claim C3. For every day whose busy intervals are sorted ascending by start, lie within
  the day (each an interval from the beginning of the day at the earliest to the end of the
  day at the latest) and do not overlap (each ends no later than every later one starts),
  the busy intervals followed by the free intervals of the Free-Slot Computer, sorted by
  start time, tile the day: the first interval starts at the beginning of the day, each
  further one starts where the one before it ended, and the last ends at the end of the
  day. Hence every instant of the day lies in exactly one of these intervals and every
  other instant in none.
\<close>

theorem tiling_property:
  assumes "sorted_by_start classes" "within_day classes" "non_overlapping classes"
  shows "tiles DAY_START DAY_END
           (sort_key fst (busy_intervals classes @ print_free_slots day_name classes))
         \<and> (\<forall>t. cover_count
                  (sort_key fst (busy_intervals classes @ print_free_slots day_name classes)) t
                = (if DAY_START \<le> t \<and> t < DAY_END then 1 else 0))"
proof -
  have d: "DAY_START \<le> DAY_END" by (simp add: DAY_START_def DAY_END_def less_eq_prod_def)
  have w: "\<forall>(s, e, r) \<in> set classes. DAY_START \<le> s \<and> s \<le> e \<and> e \<le> DAY_END"
    using assms(2) by (auto simp: within_day_def list_all_iff)
  have t: "tiles DAY_START DAY_END (timeline DAY_START classes)"
    by (rule timeline_tiles[OF d w assms(3)])
  show ?thesis
    unfolding sorted_timeline[OF assms] using t tiles_cover_count[OF t] by simp
qed


theorem tiling_property_witness:
  "sorted_by_start [((9, 0, 0), (10, 35, 0), [])]
   \<and> within_day [((9, 0, 0), (10, 35, 0), [])]
   \<and> non_overlapping [((9, 0, 0), (10, 35, 0), [])]
   \<and> tiles DAY_START DAY_END
        (sort_key fst (busy_intervals [((9, 0, 0), (10, 35, 0), [])]
                       @ print_free_slots [] [((9, 0, 0), (10, 35, 0), [])]))
   \<and> cover_count
        (sort_key fst (busy_intervals [((9, 0, 0), (10, 35, 0), [])]
                       @ print_free_slots [] [((9, 0, 0), (10, 35, 0), [])])) (12, 0, 0) = 1"
proof -
  have h1: "sorted_by_start [((9, 0, 0), (10, 35, 0), [])]"
    by (simp add: sorted_by_start_def)
  have h2: "within_day [((9, 0, 0), (10, 35, 0), [])]"
    by (simp add: within_day_def const_eval less_eq_prod_def)
  have h3: "non_overlapping [((9, 0, 0), (10, 35, 0), [])]"
    by (simp add: non_overlapping_def)
  have i: "DAY_START \<le> (12, 0, 0) \<and> (12, 0, 0) < DAY_END"
    by (simp add: const_eval less_eq_prod_def less_prod_def)
  note t = tiling_property[OF h1 h2 h3, of "[]"]
  from t have c: "cover_count
        (sort_key fst (busy_intervals [((9, 0, 0), (10, 35, 0), [])]
                       @ print_free_slots [] [((9, 0, 0), (10, 35, 0), [])])) (12, 0, 0)
      = (if DAY_START \<le> (12, 0, 0) \<and> (12, 0, 0) < DAY_END then 1 else 0)"
    by blast
  show ?thesis using h1 h2 h3 t c i by simp
qed



section \<open>Gap Filler: meals\<close>

lemma meal_end_seconds:
  assumes "valid_time a" "valid_time b" "a < b"
  shows "to_seconds (meal_end a b) = to_seconds a + min (to_seconds b - to_seconds a) 3600"
proof -
  have lt: "to_seconds a < to_seconds b" using assms by (simp add: time_less_iff)
  have bb: "to_seconds b < 86400" using assms(2) by (rule to_seconds_bound)
  define d where "d = min (to_seconds b - to_seconds a) 3600"
  have d: "min (total_seconds_between a b) 3600 = int d"
    using lt by (simp add: total_seconds_between_def d_def min_def; linarith)
  have le: "to_seconds a + d \<le> to_seconds b" using lt by (simp add: d_def)
  then have small: "to_seconds a + d < 86400" using bb by simp
  have "(int (to_seconds a) + int d) mod 86400 = int (to_seconds a + d)"
    using small by simp
  then have "nat ((int (to_seconds a) + int d) mod 86400) = to_seconds a + d"
    by (simp only: nat_int)
  then have "meal_end a b = time_of_seconds (to_seconds a + d)"
    by (simp only: meal_end_def add_seconds_def d)
  then show ?thesis using to_seconds_time_of[OF small] by (simp add: d_def)
qed

lemma meal_end_valid: "valid_time (meal_end a b)"
  by (simp add: meal_end_def add_seconds_def valid_time_of_seconds)

lemma meal_end_bounds:
  assumes "valid_time a" "valid_time b" "a < b"
  shows "a < meal_end a b" "meal_end a b \<le> b"
proof -
  have lt: "to_seconds a < to_seconds b" using assms by (simp add: time_less_iff)
  note s = meal_end_seconds[OF assms]
  show "a < meal_end a b"
    using lt s by (simp add: time_less_iff[OF assms(1) meal_end_valid])
  show "meal_end a b \<le> b"
    using lt s by (simp add: time_le_iff[OF meal_end_valid assms(2)])
qed

lemma meal_end_duration:
  assumes "valid_time a" "valid_time b" "a < b"
  shows "total_seconds_between a (meal_end a b) = min (total_seconds_between a b) 3600"
proof -
  have lt: "to_seconds a < to_seconds b" using assms by (simp add: time_less_iff)
  show ?thesis
    using lt by (simp add: total_seconds_between_def meal_end_seconds[OF assms] min_def; linarith)
qed

lemma valid_max: "valid_time a \<Longrightarrow> valid_time b \<Longrightarrow> valid_time (max a b)"
  by (simp add: max_def)

lemma valid_min: "valid_time a \<Longrightarrow> valid_time b \<Longrightarrow> valid_time (min a b)"
  by (simp add: min_def)

lemma valid_consts:
  "valid_time DAY_START" "valid_time DAY_END" "valid_time LUNCH_START" "valid_time LUNCH_END"
  "valid_time DINNER_START" "valid_time DINNER_END"
  by (simp_all add: const_eval)

lemma act_distinct:
  "ACT_STUDY \<noteq> ACT_LUNCH" "ACT_WAKE \<noteq> ACT_LUNCH" "ACT_DINNER \<noteq> ACT_LUNCH"
  "ACT_EVENING \<noteq> ACT_LUNCH" "ACT_REST \<noteq> ACT_LUNCH"
  "ACT_STUDY \<noteq> ACT_DINNER" "ACT_WAKE \<noteq> ACT_DINNER" "ACT_LUNCH \<noteq> ACT_DINNER"
  "ACT_EVENING \<noteq> ACT_DINNER" "ACT_REST \<noteq> ACT_DINNER"
  by (simp_all add: ACT_STUDY_def ACT_LUNCH_def ACT_WAKE_def ACT_DINNER_def ACT_EVENING_def
        ACT_REST_def)

lemma is_act_simp: "is_act a (b, s, e) = (b = a)"
  by (simp add: is_act_def)

lemma filter_shape_activity:
  "map record_interval (filter (\<lambda>r. record_activity r = a) rs)
     = map shape_interval (filter (is_act a) (map shape_of rs))"
  by (induction rs) (auto simp: is_act_simp)

lemma interiors_shape_ate_no_lunch:
  "filter (is_act ACT_LUNCH) (interiors_shape True sls) = []"
  by (induction sls) (auto simp: is_act_simp act_distinct)

lemma interiors_shape_lunch:
  "map shape_interval (filter (is_act ACT_LUNCH) (interiors_shape False sls))
     = (case find lunch_overlaps sls of
          None \<Rightarrow> []
        | Some (s, e) \<Rightarrow> [(max s LUNCH_START, meal_end (max s LUNCH_START) (min e LUNCH_END))])"
proof (induction sls)
  case Nil
  then show ?case by simp
next
  case (Cons sl sls)
  obtain s e where sl: "sl = (s, e)" by (cases sl)
  show ?case
  proof (cases "lunch_overlaps sl")
    case True
    then show ?thesis
      using interiors_shape_ate_no_lunch[of sls]
      by (auto simp: sl is_act_simp act_distinct)
  next
    case False
    then show ?thesis using Cons.IH by (auto simp: sl is_act_simp act_distinct)
  qed
qed

lemma last_shape_no_lunch: "filter (is_act ACT_LUNCH) (last_shape sl) = []"
  by (cases sl) (auto simp: is_act_simp act_distinct)

lemma fill_shape_lunch:
  "map shape_interval (filter (is_act ACT_LUNCH) (fill_shape slots))
     = (case find lunch_overlaps (interior_slots slots) of
          None \<Rightarrow> []
        | Some (s, e) \<Rightarrow> [(max s LUNCH_START, meal_end (max s LUNCH_START) (min e LUNCH_END))])"
proof (cases "slots = []")
  case True
  then show ?thesis by (simp add: fill_shape_def interior_slots_def)
next
  case False
  have w: "\<not> is_act ACT_LUNCH (ACT_WAKE, hd slots)" "\<not> is_act ACT_LUNCH (ACT_REST, hd slots)"
    by (simp_all add: is_act_def act_distinct)
  show ?thesis
    using False w by (simp add: fill_shape_def interiors_shape_lunch last_shape_no_lunch)
qed

text \<open>
  Claim C6. For every list of free intervals, the filler produces at most one lunch
  record. If no interior interval overlaps the lunch window there is none; otherwise the
  one lunch record is carved from the first interior interval that overlaps the window:
  it starts at the start of that interval's overlap with the window and ends at the capped
  meal end, whatever later interior intervals overlap the window as well.
\<close>

theorem single_lunch:
  "length (filter (\<lambda>r. record_activity r = ACT_LUNCH) (fill_records slots home_dorm g)) \<le> 1
   \<and> map record_interval
        (filter (\<lambda>r. record_activity r = ACT_LUNCH) (fill_records slots home_dorm g))
     = (case find lunch_overlaps (interior_slots slots) of
          None \<Rightarrow> []
        | Some (s, e) \<Rightarrow> [(max s LUNCH_START, meal_end (max s LUNCH_START) (min e LUNCH_END))])"
proof -
  have e: "map record_interval
        (filter (\<lambda>r. record_activity r = ACT_LUNCH) (fill_records slots home_dorm g))
     = (case find lunch_overlaps (interior_slots slots) of
          None \<Rightarrow> []
        | Some (s, e) \<Rightarrow> [(max s LUNCH_START, meal_end (max s LUNCH_START) (min e LUNCH_END))])"
    by (simp only: filter_shape_activity fill_records_shape fill_shape_lunch)
  have "length (map record_interval
        (filter (\<lambda>r. record_activity r = ACT_LUNCH) (fill_records slots home_dorm g))) \<le> 1"
    unfolding e by (simp split: option.split)
  then have "length (filter (\<lambda>r. record_activity r = ACT_LUNCH)
        (fill_records slots home_dorm g)) \<le> 1"
    by (simp only: length_map)
  then show ?thesis using e by (rule conjI)
qed


theorem single_lunch_witness:
  "list_all lunch_overlaps
     (interior_slots [((7, 0, 0), (8, 0, 0)), ((11, 0, 0), (12, 0, 0)),
                      ((12, 30, 0), (14, 0, 0)), ((20, 0, 0), (22, 0, 0))])
   \<and> map record_interval
        (filter (\<lambda>r. record_activity r = ACT_LUNCH)
           (fill_records [((7, 0, 0), (8, 0, 0)), ((11, 0, 0), (12, 0, 0)),
                          ((12, 30, 0), (14, 0, 0)), ((20, 0, 0), (22, 0, 0))] (DORMITORIES ! 0) (sconst 0)))
       = [((11, 30, 0), (12, 0, 0))]"
proof -
  have i: "interior_slots [((7, 0, 0), (8, 0, 0)), ((11, 0, 0), (12, 0, 0)),
                      ((12, 30, 0), (14, 0, 0)), ((20, 0, 0), (22, 0, 0))]
           = [((11, 0, 0), (12, 0, 0)), ((12, 30, 0), (14, 0, 0)) :: slot]"
    by (simp add: interior_slots_def)
  have o: "lunch_overlaps ((11, 0, 0), (12, 0, 0))" "lunch_overlaps ((12, 30, 0), (14, 0, 0))"
    by (simp_all add: const_eval order_eval)
  have m: "max (11, 0, 0) LUNCH_START = (11, 30, 0)" "min (12, 0, 0) LUNCH_END = (12, 0, 0)"
    by (simp_all add: const_eval order_eval)
  have e: "meal_end (11, 30, 0) (12, 0, 0) = (12, 0, 0)"
    by (simp add: meal_end_def add_seconds_def total_seconds_between_def time_of_seconds_def)
  show ?thesis
    using single_lunch[of "[((7, 0, 0), (8, 0, 0)), ((11, 0, 0), (12, 0, 0)),
                          ((12, 30, 0), (14, 0, 0)), ((20, 0, 0), (22, 0, 0))]" "DORMITORIES ! 0" "sconst 0"]
    by (simp add: i o m e const_eval order_eval)
qed


lemma interiors_shape_no_dinner:
  "filter (is_act ACT_DINNER) (interiors_shape ate sls) = []"
  by (induction sls arbitrary: ate) (auto simp: is_act_simp act_distinct)

lemma last_shape_dinner:
  "map shape_interval (filter (is_act ACT_DINNER) (last_shape (s, e)))
     = (if dinner_overlaps (s, e)
        then [(max s DINNER_START, meal_end (max s DINNER_START) (min e DINNER_END))] else [])"
  by (auto simp: is_act_simp act_distinct)

lemma fill_shape_dinner:
  assumes "length slots > 1" "last slots = (s, e)"
  shows "map shape_interval (filter (is_act ACT_DINNER) (fill_shape slots))
     = (if dinner_overlaps (s, e)
        then [(max s DINNER_START, meal_end (max s DINNER_START) (min e DINNER_END))] else [])"
proof -
  have ne: "slots \<noteq> []" using assms(1) by auto
  have w: "\<not> is_act ACT_DINNER (ACT_WAKE, hd slots)"
    by (simp add: is_act_def act_distinct)
  show ?thesis
    using ne w assms(1)
    by (simp add: fill_shape_def interiors_shape_no_dinner assms(2) last_shape_dinner
          del: last_shape.simps dinner_overlaps.simps)
qed

lemma lunch_window: "LUNCH_START < LUNCH_END" "DINNER_START < DINNER_END"
  by (simp_all add: const_eval order_eval)

lemma meal_end_lunch: "meal_end LUNCH_START LUNCH_END = (12, 30, 0)"
  by (simp add: meal_end_def add_seconds_def total_seconds_between_def time_of_seconds_def
        const_eval)

lemma meal_end_dinner: "meal_end DINNER_START DINNER_END = (18, 30, 0)"
  by (simp add: meal_end_def add_seconds_def total_seconds_between_def time_of_seconds_def
        const_eval)

text \<open>
  Claim C7. When the interior interval that is carved for lunch contains the whole lunch
  window, the lunch record starts at the start of the overlap, which is the start of the
  window, and its duration is the smaller of the window's length and 3600 seconds, however
  far the interval extends beyond the window. The same holds for the dinner record when
  the last of several intervals contains the whole dinner window.
\<close>

theorem meal_cap:
  "(find lunch_overlaps (interior_slots slots) = Some (s, e) \<and> s \<le> LUNCH_START \<and> LUNCH_END \<le> e
      \<longrightarrow> map record_interval
            (filter (\<lambda>r. record_activity r = ACT_LUNCH) (fill_records slots home_dorm g))
          = [(LUNCH_START, meal_end LUNCH_START LUNCH_END)]
        \<and> max s LUNCH_START = LUNCH_START
        \<and> total_seconds_between LUNCH_START (meal_end LUNCH_START LUNCH_END)
          = min (total_seconds_between LUNCH_START LUNCH_END) 3600)
   \<and> (length slots > 1 \<and> last slots = (s', e') \<and> s' \<le> DINNER_START \<and> DINNER_END \<le> e'
      \<longrightarrow> map record_interval
            (filter (\<lambda>r. record_activity r = ACT_DINNER) (fill_records slots home_dorm g))
          = [(DINNER_START, meal_end DINNER_START DINNER_END)]
        \<and> max s' DINNER_START = DINNER_START
        \<and> total_seconds_between DINNER_START (meal_end DINNER_START DINNER_END)
          = min (total_seconds_between DINNER_START DINNER_END) 3600)"
proof (intro conjI impI)
  assume a: "find lunch_overlaps (interior_slots slots) = Some (s, e) \<and> s \<le> LUNCH_START
             \<and> LUNCH_END \<le> e"
  then have m: "max s LUNCH_START = LUNCH_START" "min e LUNCH_END = LUNCH_END"
    by (simp_all add: max_absorb2 min_absorb2)
  show "map record_interval
            (filter (\<lambda>r. record_activity r = ACT_LUNCH) (fill_records slots home_dorm g))
          = [(LUNCH_START, meal_end LUNCH_START LUNCH_END)]"
    using a by (simp add: filter_shape_activity fill_records_shape fill_shape_lunch m)
  show "max s LUNCH_START = LUNCH_START" by (rule m)
  show "total_seconds_between LUNCH_START (meal_end LUNCH_START LUNCH_END)
          = min (total_seconds_between LUNCH_START LUNCH_END) 3600"
    by (rule meal_end_duration[OF valid_consts(3) valid_consts(4) lunch_window(1)])
next
  assume a: "length slots > 1 \<and> last slots = (s', e') \<and> s' \<le> DINNER_START \<and> DINNER_END \<le> e'"
  then have m: "max s' DINNER_START = DINNER_START" "min e' DINNER_END = DINNER_END"
    by (simp_all add: max_absorb2 min_absorb2)
  have o: "dinner_overlaps (s', e')" by (simp add: m lunch_window)
  have l: "length slots > 1" "last slots = (s', e')" using a by auto
  show "map record_interval
            (filter (\<lambda>r. record_activity r = ACT_DINNER) (fill_records slots home_dorm g))
          = [(DINNER_START, meal_end DINNER_START DINNER_END)]"
    using o by (simp add: filter_shape_activity fill_records_shape fill_shape_dinner[OF l] m
          del: dinner_overlaps.simps)
  show "max s' DINNER_START = DINNER_START" by (rule m)
  show "total_seconds_between DINNER_START (meal_end DINNER_START DINNER_END)
          = min (total_seconds_between DINNER_START DINNER_END) 3600"
    by (rule meal_end_duration[OF valid_consts(5) valid_consts(6) lunch_window(2)])
qed

theorem meal_cap_witness:
  "find lunch_overlaps (interior_slots [((7, 0, 0), (8, 0, 0)), ((10, 0, 0), (16, 0, 0)),
                                        ((17, 0, 0), (22, 0, 0))])
     = Some ((10, 0, 0), (16, 0, 0))
   \<and> (10, 0, 0) \<le> LUNCH_START \<and> LUNCH_END \<le> (16, 0, 0)
   \<and> (17, 0, 0) \<le> DINNER_START \<and> DINNER_END \<le> (22, 0, 0)
   \<and> map record_interval
        (filter (\<lambda>r. record_activity r = ACT_LUNCH)
           (fill_records [((7, 0, 0), (8, 0, 0)), ((10, 0, 0), (16, 0, 0)),
                          ((17, 0, 0), (22, 0, 0))] (DORMITORIES ! 0) (sconst 0)))
       = [((11, 30, 0), (12, 30, 0))]
   \<and> map record_interval
        (filter (\<lambda>r. record_activity r = ACT_DINNER)
           (fill_records [((7, 0, 0), (8, 0, 0)), ((10, 0, 0), (16, 0, 0)),
                          ((17, 0, 0), (22, 0, 0))] (DORMITORIES ! 0) (sconst 0)))
       = [((17, 30, 0), (18, 30, 0))]
   \<and> total_seconds_between (11, 30, 0) (12, 30, 0) = 3600
   \<and> total_seconds_between (17, 30, 0) (18, 30, 0) = 3600"
proof -
  let ?slots = "[((7, 0, 0), (8, 0, 0)), ((10, 0, 0), (16, 0, 0)), ((17, 0, 0), (22, 0, 0))]
                :: slot list"
  have f: "find lunch_overlaps (interior_slots ?slots) = Some ((10, 0, 0), (16, 0, 0))"
    by (simp add: interior_slots_def const_eval order_eval)
  have b: "(10, 0, 0) \<le> LUNCH_START \<and> LUNCH_END \<le> (16, 0, 0)"
    "(17, 0, 0) \<le> DINNER_START \<and> DINNER_END \<le> (22, 0, 0)"
    by (simp_all add: const_eval order_eval)
  have l: "length ?slots > 1 \<and> last ?slots = ((17, 0, 0), (22, 0, 0))" by simp
  note t = meal_cap[where slots = ?slots and s = "(10, 0, 0)" and e = "(16, 0, 0)"
      and s' = "(17, 0, 0)" and e' = "(22, 0, 0)" and home_dorm = "DORMITORIES ! 0" and g = "sconst 0"]
  from t f b(1) have lunch: "map record_interval
        (filter (\<lambda>r. record_activity r = ACT_LUNCH) (fill_records ?slots (DORMITORIES ! 0) (sconst 0)))
       = [(LUNCH_START, meal_end LUNCH_START LUNCH_END)]"
    by blast
  from t l b(2) have dinner: "map record_interval
        (filter (\<lambda>r. record_activity r = ACT_DINNER) (fill_records ?slots (DORMITORIES ! 0) (sconst 0)))
       = [(DINNER_START, meal_end DINNER_START DINNER_END)]"
    by blast
  have c: "LUNCH_START = (11, 30, 0)" "DINNER_START = (17, 30, 0)" by (simp_all add: const_eval)
  have d: "total_seconds_between (11, 30, 0) (12, 30, 0) = 3600"
    "total_seconds_between (17, 30, 0) (18, 30, 0) = 3600"
    by (simp_all add: total_seconds_between_def)
  have lunch': "map record_interval
        (filter (\<lambda>r. record_activity r = ACT_LUNCH) (fill_records ?slots (DORMITORIES ! 0) (sconst 0)))
       = [((11, 30, 0), (12, 30, 0))]"
    using lunch unfolding meal_end_lunch by (simp add: c)
  have dinner': "map record_interval
        (filter (\<lambda>r. record_activity r = ACT_DINNER) (fill_records ?slots (DORMITORIES ! 0) (sconst 0)))
       = [((17, 30, 0), (18, 30, 0))]"
    using dinner unfolding meal_end_dinner by (simp add: c)
  show ?thesis
    using f b lunch' dinner' d by (intro conjI) (elim conjE | assumption)+
qed



lemma find_overlaps: "find lunch_overlaps sls = Some sl \<Longrightarrow> lunch_overlaps sl"
  by (induction sls) (auto split: if_splits)

lemma meal_end_capped:
  assumes "valid_time a" "valid_time b" "3600 < total_seconds_between a b"
  shows "meal_end a b = add_seconds a 3600" "meal_end a b < b"
proof -
  show e: "meal_end a b = add_seconds a 3600"
    using assms(3) by (simp add: meal_end_def min_def)
  have lt: "to_seconds a + 3600 < to_seconds b"
    using assms(3) by (simp add: total_seconds_between_def)
  then have ab: "a < b" using assms(1,2) by (simp add: time_less_iff)
  have "to_seconds (meal_end a b) = to_seconds a + 3600"
    using meal_end_seconds[OF assms(1,2) ab] lt by (simp add: min_def)
  then show "meal_end a b < b"
    using lt by (simp add: time_less_iff[OF meal_end_valid assms(2)])
qed

lemma min_le_right: "min (e::time) w \<le> e"
  by simp


section \<open>Gap Filler: coverage with two or more free intervals\<close>

lemma cover_count_append: "cover_count (xs @ ys) t = cover_count xs t + cover_count ys t"
  by (simp add: cover_count_def)

lemma cover_count_one: "cover_count [(a, b)] t = (if a \<le> t \<and> t < b then 1 else 0)"
  by (simp add: cover_count_def)

lemma cover_whole: "cover_count (if a < b then [(a, b)] else []) t = cover_count [(a, b)] t"
  for a b t :: time
  by (auto simp: cover_count_def)

lemma cover_split3:
  fixes a b c d t :: time
  assumes "a \<le> b" "b \<le> c" "c \<le> d"
  shows "cover_count ((if a < b then [(a, b)] else []) @ [(b, c)]
                      @ (if c < d then [(c, d)] else [])) t
         = cover_count [(a, d)] t"
proof -
  have 1: "cover_count (if a < b then [(a, b)] else []) t = (if a \<le> t \<and> t < b then 1 else 0)"
    by (simp only: cover_whole cover_count_one)
  have 3: "cover_count (if c < d then [(c, d)] else []) t = (if c \<le> t \<and> t < d then 1 else 0)"
    by (simp only: cover_whole cover_count_one)
  show ?thesis
    unfolding cover_count_append 1 3 cover_count_one using assms by auto
qed

lemma interior_shape_cover:
  assumes "valid_time s" "valid_time e"
  shows "cover_count (map shape_interval (interior_shape ate (s, e))) t = cover_count [(s, e)] t"
proof (cases "\<not> ate \<and> lunch_overlaps (s, e)")
  case True
  let ?a = "max s LUNCH_START" and ?b = "min e LUNCH_END"
  have va: "valid_time ?a" and vb: "valid_time ?b"
    using assms by (simp_all add: valid_max valid_min valid_consts)
  have ab: "?a < ?b" using True by simp
  note m = meal_end_bounds[OF va vb ab]
  have 1: "s \<le> ?a" by simp
  have 2: "?a \<le> meal_end ?a ?b" using m(1) by (rule less_imp_le)
  have 3: "meal_end ?a ?b \<le> e" using m(2) min_le_right[of e LUNCH_END] by (rule order_trans)
  have "map shape_interval (interior_shape ate (s, e))
        = (if s < ?a then [(s, ?a)] else []) @ [(?a, meal_end ?a ?b)]
          @ (if meal_end ?a ?b < e then [(meal_end ?a ?b, e)] else [])"
    using True by simp
  then show ?thesis by (simp only: cover_split3[OF 1 2 3])
next
  case False
  then have "map shape_interval (interior_shape ate (s, e)) = (if s < e then [(s, e)] else [])"
    by auto
  then show ?thesis by (simp only: cover_whole)
qed

lemma interiors_shape_cover:
  assumes "\<forall>(s, e) \<in> set sls. valid_time s \<and> valid_time e"
  shows "cover_count (map shape_interval (interiors_shape ate sls)) t = cover_count sls t"
  using assms
proof (induction sls arbitrary: ate)
  case Nil
  then show ?case by (simp add: cover_count_def)
next
  case (Cons sl sls)
  obtain s e where sl: "sl = (s, e)" by (cases sl)
  have v: "valid_time s" "valid_time e" using Cons.prems sl by auto
  have rest: "\<forall>(s, e) \<in> set sls. valid_time s \<and> valid_time e" using Cons.prems by auto
  have "cover_count (sl # sls) t = cover_count [(s, e)] t + cover_count sls t"
    using cover_count_append[of "[sl]" sls t] by (simp add: sl)
  then show ?case
    using Cons.IH[OF rest] interior_shape_cover[OF v, of ate t]
    by (simp only: interiors_shape.simps map_append cover_count_append sl)
qed

lemma last_shape_cover:
  assumes "valid_time s" "valid_time e"
  shows "cover_count (map shape_interval (last_shape (s, e))) t = cover_count [(s, e)] t"
proof (cases "dinner_overlaps (s, e)")
  case True
  let ?a = "max s DINNER_START" and ?b = "min e DINNER_END"
  have va: "valid_time ?a" and vb: "valid_time ?b"
    using assms by (simp_all add: valid_max valid_min valid_consts)
  have ab: "?a < ?b" using True by simp
  note m = meal_end_bounds[OF va vb ab]
  have 1: "s \<le> ?a" by simp
  have 2: "?a \<le> meal_end ?a ?b" using m(1) by (rule less_imp_le)
  have 3: "meal_end ?a ?b \<le> e" using m(2) min_le_right[of e DINNER_END] by (rule order_trans)
  have "map shape_interval (last_shape (s, e))
        = (if s < ?a then [(s, ?a)] else []) @ [(?a, meal_end ?a ?b)]
          @ (if meal_end ?a ?b < e then [(meal_end ?a ?b, e)] else [])"
    using True by simp
  then show ?thesis by (simp only: cover_split3[OF 1 2 3])
next
  case False
  then have "map shape_interval (last_shape (s, e)) = (if s < e then [(s, e)] else [])"
    by auto
  then show ?thesis by (simp only: cover_whole)
qed

lemma slots_split:
  assumes "2 \<le> length slots"
  shows "slots = hd slots # interior_slots slots @ [last slots]"
proof -
  show ?thesis
  proof (cases slots)
    case Nil
    then show ?thesis using assms by simp
  next
    case (Cons x xs)
    then have ne: "xs \<noteq> []" using assms by auto
    have i: "interior_slots (x # xs) = butlast xs"
      using ne by (cases xs) (auto simp: interior_slots_def)
    show ?thesis using ne by (simp add: Cons i)
  qed
qed

lemma record_interval_shape: "map record_interval rs = map shape_interval (map shape_of rs)"
  by (induction rs) auto

text \<open>
  The double record of a single free interval is the only loss of coverage preservation.
  For every list of at least two free intervals between times of day, every instant lies
  in as many record intervals as free intervals: nothing of a free interval is lost, and
  nothing is covered more often by the records than by the free intervals themselves.
\<close>

lemma coverage_two_or_more:
  assumes "2 \<le> length slots" "\<forall>(s, e) \<in> set slots. valid_time s \<and> valid_time e"
  shows "cover_count (map record_interval (fill_records slots home_dorm g)) t
         = cover_count slots t"
proof -
  obtain s0 e0 where h: "hd slots = (s0, e0)" by (cases "hd slots")
  obtain s1 e1 where l: "last slots = (s1, e1)" by (cases "last slots")
  note sp = slots_split[OF assms(1)]
  have ne: "slots \<noteq> []" using assms(1) by auto
  have "last slots \<in> set slots" using ne by simp
  then have vl: "valid_time s1" "valid_time e1" using assms(2) l by auto
  have "set (interior_slots slots)
          \<subseteq> set (hd slots # interior_slots slots @ [last slots])"
    by auto
  then have "set (interior_slots slots) \<subseteq> set slots" by (simp only: sp[symmetric])
  then have vi: "\<forall>(s, e) \<in> set (interior_slots slots). valid_time s \<and> valid_time e"
    using assms(2) by blast
  have f: "map shape_interval (fill_shape slots)
        = [(s0, e0)] @ map shape_interval (interiors_shape False (interior_slots slots))
          @ map shape_interval (last_shape (s1, e1))"
    using ne assms(1) by (simp add: fill_shape_def h l del: last_shape.simps)
  have "cover_count slots t
        = cover_count [(s0, e0)] t + cover_count (interior_slots slots) t
          + cover_count [(s1, e1)] t"
    by (subst sp) (simp only: h l cover_count_append append_Cons[symmetric] append_Nil
          add.assoc, simp add: cover_count_def)
  then show ?thesis
    by (simp only: record_interval_shape fill_records_shape f cover_count_append
          interiors_shape_cover[OF vi] last_shape_cover[OF vl] add.assoc)
qed



lemma find_interior_split:
  "find lunch_overlaps sls = Some sl \<Longrightarrow>
     \<exists>pre post. interiors_shape False sls = pre @ interior_shape False sl @ post"
proof (induction sls)
  case Nil
  then show ?case by simp
next
  case (Cons x sls)
  show ?case
  proof (cases "lunch_overlaps x")
    case True
    then have "x = sl" using Cons.prems by simp
    then have "interiors_shape False (x # sls)
               = [] @ interior_shape False sl @ interiors_shape (False \<or> lunch_overlaps sl) sls"
      by simp
    then show ?thesis by blast
  next
    case False
    then have "find lunch_overlaps sls = Some sl" using Cons.prems by simp
    from Cons.IH[OF this] obtain pre post
      where "interiors_shape False sls = pre @ interior_shape False sl @ post" by blast
    then have "interiors_shape False (x # sls)
               = (interior_shape False x @ pre) @ interior_shape False sl @ post"
      using False by simp
    then show ?thesis by blast
  qed
qed

lemma find_some_length: "find P (interior_slots slots) = Some sl \<Longrightarrow> 2 < length slots"
  by (cases "2 < length slots") (simp_all add: interior_slots_def)

text \<open>
  Claim C4, at an input that refutes it. The claim says that the part of the overlap
  beyond the one-hour meal is dropped. With the free intervals 07:00 to 09:00, 11:00 to
  14:00 and 20:00 to 22:00, the interior interval overlaps the lunch window for two hours;
  the filler emits the study record from 11:00 to 11:30, the lunch record from 11:30 to
  12:30 and a trailing study record from 12:30 to 14:00, which holds the rest of the
  overlap, 12:30 to 13:30 (for instance the instant 13:00).
\<close>

theorem leftover_not_dropped:
  "map shape_of (fill_records [((7, 0, 0), (9, 0, 0)), ((11, 0, 0), (14, 0, 0)),
                               ((20, 0, 0), (22, 0, 0))] (DORMITORIES ! 0) (sconst 0))
     = [(ACT_WAKE, (7, 0, 0), (9, 0, 0)), (ACT_STUDY, (11, 0, 0), (11, 30, 0)),
        (ACT_LUNCH, (11, 30, 0), (12, 30, 0)), (ACT_STUDY, (12, 30, 0), (14, 0, 0)),
        (ACT_EVENING, (20, 0, 0), (22, 0, 0))]
   \<and> total_seconds_between (max (11, 0, 0) LUNCH_START) (min (14, 0, 0) LUNCH_END) = 7200
   \<and> covers ((12, 30, 0), (14, 0, 0)) (13, 0, 0)"
  by (simp add: fill_eval const_eval order_eval)

text \<open>
  Claim C4 as amended. Take free intervals between times of day. When the overlap of the
  interval carved for a meal with the meal window exceeds one hour, the meal record runs
  from the start of the overlap to one hour later, which is before the end of the overlap,
  and it is the only record of that meal. The record that follows it runs from the end of
  the meal to the end of the free interval, so it holds the rest of the overlap: a study
  record after lunch in the interior interval carved for lunch, an evening-rest record
  after dinner in the last of several intervals. Every instant lies in as many records as
  free intervals: nothing of a free interval is dropped.
\<close>

theorem leftover_after_meal_cap:
  "((\<forall>(a, b) \<in> set slots. valid_time a \<and> valid_time b)
      \<and> find lunch_overlaps (interior_slots slots) = Some (s, e)
      \<and> 3600 < total_seconds_between (max s LUNCH_START) (min e LUNCH_END)
     \<longrightarrow> (\<exists>pre post. map shape_of (fill_records slots home_dorm g)
             = pre @ [(ACT_LUNCH, max s LUNCH_START, add_seconds (max s LUNCH_START) 3600),
                      (ACT_STUDY, add_seconds (max s LUNCH_START) 3600, e)] @ post)
         \<and> map record_interval
             (filter (\<lambda>r. record_activity r = ACT_LUNCH) (fill_records slots home_dorm g))
           = [(max s LUNCH_START, add_seconds (max s LUNCH_START) 3600)]
         \<and> add_seconds (max s LUNCH_START) 3600 < min e LUNCH_END
         \<and> min e LUNCH_END \<le> e
         \<and> (\<forall>t. cover_count (map record_interval (fill_records slots home_dorm g)) t
                = cover_count slots t))
   \<and> ((\<forall>(a, b) \<in> set slots. valid_time a \<and> valid_time b)
      \<and> length slots > 1 \<and> last slots = (s', e')
      \<and> 3600 < total_seconds_between (max s' DINNER_START) (min e' DINNER_END)
     \<longrightarrow> (\<exists>pre. map shape_of (fill_records slots home_dorm g)
             = pre @ [(ACT_DINNER, max s' DINNER_START,
                       add_seconds (max s' DINNER_START) 3600),
                      (ACT_EVENING, add_seconds (max s' DINNER_START) 3600, e')])
         \<and> map record_interval
             (filter (\<lambda>r. record_activity r = ACT_DINNER) (fill_records slots home_dorm g))
           = [(max s' DINNER_START, add_seconds (max s' DINNER_START) 3600)]
         \<and> add_seconds (max s' DINNER_START) 3600 < min e' DINNER_END
         \<and> min e' DINNER_END \<le> e'
         \<and> (\<forall>t. cover_count (map record_interval (fill_records slots home_dorm g)) t
                = cover_count slots t))"
proof (intro conjI impI)
  assume a: "(\<forall>(a, b) \<in> set slots. valid_time a \<and> valid_time b)
      \<and> find lunch_overlaps (interior_slots slots) = Some (s, e)
      \<and> 3600 < total_seconds_between (max s LUNCH_START) (min e LUNCH_END)"
  let ?a = "max s LUNCH_START" and ?b = "min e LUNCH_END"
  have f: "find lunch_overlaps (interior_slots slots) = Some (s, e)" using a by simp
  have val: "\<forall>(a, b) \<in> set slots. valid_time a \<and> valid_time b" using a by simp
  have len: "2 < length slots" by (rule find_some_length[OF f])
  have "(s, e) \<in> set (interior_slots slots)" using f by (auto simp: find_Some_iff)
  moreover have "set (interior_slots slots)
          \<subseteq> set (hd slots # interior_slots slots @ [last slots])"
    by auto
  then have "set (interior_slots slots) \<subseteq> set slots"
    using slots_split[of slots] len by simp
  ultimately have "(s, e) \<in> set slots" by blast
  then have v: "valid_time s" "valid_time e" using val by auto
  have va: "valid_time ?a" and vb: "valid_time ?b"
    using v by (simp_all add: valid_max valid_min valid_consts)
  have big: "3600 < total_seconds_between ?a ?b" using a by simp
  note c = meal_end_capped[OF va vb big]
  have o: "lunch_overlaps (s, e)" by (rule find_overlaps[OF f])
  have lt: "meal_end ?a ?b < e" using c(2) min_le_right[of e LUNCH_END] by (rule less_le_trans)
  have ish: "interior_shape False (s, e)
        = (if s < ?a then [(ACT_STUDY, s, ?a)] else [])
          @ [(ACT_LUNCH, ?a, add_seconds ?a 3600), (ACT_STUDY, add_seconds ?a 3600, e)]"
    using o lt by (simp add: c(1) del: lunch_overlaps.simps)
  obtain pre post where sp: "interiors_shape False (interior_slots slots)
        = pre @ interior_shape False (s, e) @ post"
    using find_interior_split[OF f] by blast
  have ne: "slots \<noteq> []" using len by auto
  have "fill_shape slots
        = ((ACT_WAKE, hd slots) # pre @ (if s < ?a then [(ACT_STUDY, s, ?a)] else []))
          @ [(ACT_LUNCH, ?a, add_seconds ?a 3600), (ACT_STUDY, add_seconds ?a 3600, e)]
          @ (post @ last_shape (last slots))"
    using ne len
    by (simp add: fill_shape_def sp ish del: last_shape.simps interior_shape.simps)
  then show "\<exists>pre post. map shape_of (fill_records slots home_dorm g)
             = pre @ [(ACT_LUNCH, ?a, add_seconds ?a 3600),
                      (ACT_STUDY, add_seconds ?a 3600, e)] @ post"
    unfolding fill_records_shape by blast
  show "map record_interval
             (filter (\<lambda>r. record_activity r = ACT_LUNCH) (fill_records slots home_dorm g))
           = [(?a, add_seconds ?a 3600)]"
    using single_lunch[of slots home_dorm g] by (simp add: f c(1))
  show "add_seconds ?a 3600 < ?b" using c by simp
  show "?b \<le> e" by simp
  show "\<forall>t. cover_count (map record_interval (fill_records slots home_dorm g)) t
                = cover_count slots t"
    using coverage_two_or_more[OF _ val, of home_dorm g] len by simp
next
  assume a: "(\<forall>(a, b) \<in> set slots. valid_time a \<and> valid_time b)
      \<and> length slots > 1 \<and> last slots = (s', e')
      \<and> 3600 < total_seconds_between (max s' DINNER_START) (min e' DINNER_END)"
  let ?a = "max s' DINNER_START" and ?b = "min e' DINNER_END"
  have val: "\<forall>(a, b) \<in> set slots. valid_time a \<and> valid_time b" using a by simp
  have len: "1 < length slots" and l: "last slots = (s', e')" using a by simp_all
  have ne: "slots \<noteq> []" using len by auto
  then have "(s', e') \<in> set slots" using l last_in_set by metis
  then have v: "valid_time s'" "valid_time e'" using val by auto
  have va: "valid_time ?a" and vb: "valid_time ?b"
    using v by (simp_all add: valid_max valid_min valid_consts)
  have big: "3600 < total_seconds_between ?a ?b" using a by simp
  note c = meal_end_capped[OF va vb big]
  have "to_seconds ?a < to_seconds ?b" using big by (simp add: total_seconds_between_def)
  then have "?a < ?b" by (simp only: time_less_iff[OF va vb])
  then have o: "dinner_overlaps (s', e')" by (simp only: dinner_overlaps.simps)
  have lt: "meal_end ?a ?b < e'" using c(2) min_le_right[of e' DINNER_END] by (rule less_le_trans)
  have lsh: "last_shape (s', e')
        = (if s' < ?a then [(ACT_STUDY, s', ?a)] else [])
          @ [(ACT_DINNER, ?a, add_seconds ?a 3600), (ACT_EVENING, add_seconds ?a 3600, e')]"
    using o lt by (simp add: c(1) del: dinner_overlaps.simps)
  have "fill_shape slots
        = ((ACT_WAKE, hd slots) # interiors_shape False (interior_slots slots)
             @ (if s' < ?a then [(ACT_STUDY, s', ?a)] else []))
          @ [(ACT_DINNER, ?a, add_seconds ?a 3600), (ACT_EVENING, add_seconds ?a 3600, e')]"
    using ne len by (simp add: fill_shape_def l lsh del: last_shape.simps)
  then show "\<exists>pre. map shape_of (fill_records slots home_dorm g)
             = pre @ [(ACT_DINNER, ?a, add_seconds ?a 3600),
                      (ACT_EVENING, add_seconds ?a 3600, e')]"
    unfolding fill_records_shape by blast
  show "map record_interval
             (filter (\<lambda>r. record_activity r = ACT_DINNER) (fill_records slots home_dorm g))
           = [(?a, add_seconds ?a 3600)]"
    using o by (simp add: filter_shape_activity fill_records_shape fill_shape_dinner[OF len l]
          c(1) del: dinner_overlaps.simps)
  show "add_seconds ?a 3600 < ?b" using c by simp
  show "?b \<le> e'" by simp
  show "\<forall>t. cover_count (map record_interval (fill_records slots home_dorm g)) t
                = cover_count slots t"
    using coverage_two_or_more[OF _ val, of home_dorm g] len by simp
qed


theorem leftover_after_meal_cap_witness:
  "list_all (\<lambda>(a, b). valid_time a \<and> valid_time b)
     [((7, 0, 0), (9, 0, 0)), ((11, 0, 0), (14, 0, 0)), ((17, 0, 0), (22, 0, 0))]
   \<and> find lunch_overlaps (interior_slots [((7, 0, 0), (9, 0, 0)), ((11, 0, 0), (14, 0, 0)),
                                          ((17, 0, 0), (22, 0, 0))])
       = Some ((11, 0, 0), (14, 0, 0))
   \<and> 3600 < total_seconds_between (max (11, 0, 0) LUNCH_START) (min (14, 0, 0) LUNCH_END)
   \<and> 3600 < total_seconds_between (max (17, 0, 0) DINNER_START) (min (22, 0, 0) DINNER_END)
   \<and> map record_interval
        (filter (\<lambda>r. record_activity r = ACT_LUNCH)
           (fill_records [((7, 0, 0), (9, 0, 0)), ((11, 0, 0), (14, 0, 0)),
                          ((17, 0, 0), (22, 0, 0))] (DORMITORIES ! 0) (sconst 0)))
       = [((11, 30, 0), (12, 30, 0))]
   \<and> map record_interval
        (filter (\<lambda>r. record_activity r = ACT_DINNER)
           (fill_records [((7, 0, 0), (9, 0, 0)), ((11, 0, 0), (14, 0, 0)),
                          ((17, 0, 0), (22, 0, 0))] (DORMITORIES ! 0) (sconst 0)))
       = [((17, 30, 0), (18, 30, 0))]
   \<and> cover_count
        (map record_interval
           (fill_records [((7, 0, 0), (9, 0, 0)), ((11, 0, 0), (14, 0, 0)),
                          ((17, 0, 0), (22, 0, 0))] (DORMITORIES ! 0) (sconst 0)))
        (13, 0, 0) = 1
   \<and> cover_count
        (map record_interval
           (fill_records [((7, 0, 0), (9, 0, 0)), ((11, 0, 0), (14, 0, 0)),
                          ((17, 0, 0), (22, 0, 0))] (DORMITORIES ! 0) (sconst 0)))
        (18, 45, 0) = 1"
proof -
  let ?slots = "[((7, 0, 0), (9, 0, 0)), ((11, 0, 0), (14, 0, 0)), ((17, 0, 0), (22, 0, 0))]
                :: slot list"
  let ?recs = "fill_records ?slots (DORMITORIES ! 0) (sconst 0)"
  have v: "\<forall>(a, b) \<in> set ?slots. valid_time a \<and> valid_time b" by simp
  have v': "list_all (\<lambda>(a, b). valid_time a \<and> valid_time b) ?slots" by simp
  have f: "find lunch_overlaps (interior_slots ?slots) = Some ((11, 0, 0), (14, 0, 0))"
    by (simp add: interior_slots_def const_eval order_eval)
  have b1: "3600 < total_seconds_between (max (11, 0, 0) LUNCH_START) (min (14, 0, 0) LUNCH_END)"
    by (simp add: const_eval order_eval total_seconds_between_def)
  have b2: "3600 < total_seconds_between (max (17, 0, 0) DINNER_START) (min (22, 0, 0) DINNER_END)"
    by (simp add: const_eval order_eval total_seconds_between_def)
  have l: "length ?slots > 1 \<and> last ?slots = ((17, 0, 0), (22, 0, 0))" by simp
  have a1: "max (11, 0, 0) LUNCH_START = (11, 30, 0)"
    "add_seconds (11, 30, 0) 3600 = (12, 30, 0)"
    by (simp_all add: const_eval order_eval add_seconds_def time_of_seconds_def)
  have a2: "max (17, 0, 0) DINNER_START = (17, 30, 0)"
    "add_seconds (17, 30, 0) 3600 = (18, 30, 0)"
    by (simp_all add: const_eval order_eval add_seconds_def time_of_seconds_def)
  note t = leftover_after_meal_cap[where slots = ?slots and s = "(11, 0, 0)" and e = "(14, 0, 0)"
      and s' = "(17, 0, 0)" and e' = "(22, 0, 0)" and home_dorm = "DORMITORIES ! 0"
      and g = "sconst 0"]
  from t v f b1 have r1: "map record_interval
        (filter (\<lambda>r. record_activity r = ACT_LUNCH) ?recs)
       = [(max (11, 0, 0) LUNCH_START, add_seconds (max (11, 0, 0) LUNCH_START) 3600)]"
    by blast
  from t v l b2 have r2: "map record_interval
        (filter (\<lambda>r. record_activity r = ACT_DINNER) ?recs)
       = [(max (17, 0, 0) DINNER_START, add_seconds (max (17, 0, 0) DINNER_START) 3600)]"
    by blast
  from t v f b1 have cov: "\<forall>t. cover_count (map record_interval ?recs) t = cover_count ?slots t"
    by blast
  have c1: "cover_count ?slots (13, 0, 0) = 1" "cover_count ?slots (18, 45, 0) = 1"
    by (simp_all add: cover_count_def order_eval)
  have r3: "cover_count (map record_interval ?recs) (13, 0, 0) = 1"
    "cover_count (map record_interval ?recs) (18, 45, 0) = 1"
    using cov c1 by simp_all
  show ?thesis
    using v' f b1 b2 r1 r2 r3 unfolding a1 a2 by (intro conjI) (elim conjE | assumption)+
qed


section \<open>Final sort\<close>

lemma day_map_range: "day_map d = Some k \<Longrightarrow> 1 \<le> k \<and> k \<le> 7"
  by (auto simp: day_map_def split: if_splits)

lemma key_lex:
  "((a::int, b::time) \<le> (c, d)) = (a < c \<or> (a = c \<and> b \<le> d))"
  by (auto simp: less_eq_prod_def)

text \<open>
  Claim C8. The final sort leaves the records in ascending order of the key, the pair of
  weekday ordinal and start time compared first by ordinal and then by time; it keeps
  every record, and records with equal keys keep their order. The ordinal of a record is
  the entry of the fixed seven-entry mapping for its day label, a number from 1 to 7, and
  8 for every label that the mapping does not know (and for a record without a second
  field), so that these sort after all seven known labels. The start time is the start
  that the Time Range Parser finds in the last field of the record, and 00:00:00 when the
  last field does not parse (or the record has no field).
\<close>

theorem sort_determinism:
  "sorted (map get_sort_key (sort_events rows))
   \<and> mset (sort_events rows) = mset rows
   \<and> sorted_wrt (\<lambda>x y. fst (get_sort_key x) < fst (get_sort_key y)
                    \<or> (fst (get_sort_key x) = fst (get_sort_key y)
                        \<and> snd (get_sort_key x) \<le> snd (get_sort_key y)))
        (sort_events rows)
   \<and> (\<forall>k. filter (\<lambda>x. get_sort_key x = k) (sort_events rows)
          = filter (\<lambda>x. get_sort_key x = k) rows)
   \<and> (length r > 1 \<and> day_map (r ! 1) = Some d
        \<longrightarrow> fst (get_sort_key r) = d \<and> 1 \<le> d \<and> d \<le> 7)
   \<and> (length r \<le> 1 \<or> day_map (r ! 1) = None \<longrightarrow> fst (get_sort_key r) = 8)
   \<and> (r \<noteq> [] \<and> parse_start_end_from_string (last r) = Some (start_t, end_t)
        \<longrightarrow> snd (get_sort_key r) = start_t)
   \<and> (r = [] \<or> parse_start_end_from_string (last r) = None
        \<longrightarrow> snd (get_sort_key r) = (0, 0, 0))"
proof (intro conjI)
  show s: "sorted (map get_sort_key (sort_events rows))"
    by (simp add: sort_events_def)
  show "mset (sort_events rows) = mset rows"
    by (simp add: sort_events_def)
  have "sorted_wrt (\<lambda>x y. get_sort_key x \<le> get_sort_key y) (sort_events rows)"
    using s by (simp only: sorted_map)
  then show "sorted_wrt (\<lambda>x y. fst (get_sort_key x) < fst (get_sort_key y)
                    \<or> (fst (get_sort_key x) = fst (get_sort_key y)
                        \<and> snd (get_sort_key x) \<le> snd (get_sort_key y)))
        (sort_events rows)"
  proof (rule sorted_wrt_mono_rel[rotated])
    fix x y
    assume "get_sort_key x \<le> get_sort_key y"
    then show "fst (get_sort_key x) < fst (get_sort_key y)
                    \<or> (fst (get_sort_key x) = fst (get_sort_key y)
                        \<and> snd (get_sort_key x) \<le> snd (get_sort_key y))"
      using key_lex[of "fst (get_sort_key x)" "snd (get_sort_key x)" "fst (get_sort_key y)"
                "snd (get_sort_key y)"]
      by simp
  qed
  show "\<forall>k. filter (\<lambda>x. get_sort_key x = k) (sort_events rows)
          = filter (\<lambda>x. get_sort_key x = k) rows"
    by (simp add: sort_events_def sort_key_stable)
  show "length r > 1 \<and> day_map (r ! 1) = Some d
        \<longrightarrow> fst (get_sort_key r) = d \<and> 1 \<le> d \<and> d \<le> 7"
    using day_map_range[of "r ! 1" d]
    by (auto simp: get_sort_key_def dict_get_def Let_def split: option.splits)
  show "length r \<le> 1 \<or> day_map (r ! 1) = None \<longrightarrow> fst (get_sort_key r) = 8"
    by (auto simp: get_sort_key_def dict_get_def Let_def split: option.splits)
  show "r \<noteq> [] \<and> parse_start_end_from_string (last r) = Some (start_t, end_t)
        \<longrightarrow> snd (get_sort_key r) = start_t"
    by (auto simp: get_sort_key_def Let_def split: option.splits)
  show "r = [] \<or> parse_start_end_from_string (last r) = None
        \<longrightarrow> snd (get_sort_key r) = (0, 0, 0)"
    by (auto simp: get_sort_key_def Let_def split: option.splits)
qed


lemmas key_eval = get_sort_key_def dict_get_def day_map_def parse_eval Let_def

theorem sort_determinism_witness:
  "map get_sort_key
     (sort_events
        [[ascii ''a'', [0x661f, 0x671f, 0x32], ascii ''08:00:00 09:00:00''],
         [ascii ''b'', [0x661f, 0x671f, 0x31], ascii ''10:00:00 11:00:00''],
         [ascii ''c'', ascii ''Sunday'', ascii ''07:00:00 08:00:00''],
         [ascii ''d'', [0x661f, 0x671f, 0x31], ascii ''-'']])
     = [(1, (0, 0, 0)), (1, (10, 0, 0)), (2, (8, 0, 0)), (8, (7, 0, 0))]
   \<and> day_map ([ascii ''b'', [0x661f, 0x671f, 0x31], ascii ''10:00:00 11:00:00''] ! 1) = Some 1
   \<and> fst (get_sort_key [ascii ''b'', [0x661f, 0x671f, 0x31], ascii ''10:00:00 11:00:00'']) = 1
   \<and> snd (get_sort_key [ascii ''b'', [0x661f, 0x671f, 0x31], ascii ''10:00:00 11:00:00''])
       = (10, 0, 0)
   \<and> day_map ([ascii ''c'', ascii ''Sunday'', ascii ''07:00:00 08:00:00''] ! 1) = None
   \<and> fst (get_sort_key [ascii ''c'', ascii ''Sunday'', ascii ''07:00:00 08:00:00'']) = 8
   \<and> parse_start_end_from_string (last [ascii ''d'', [0x661f, 0x671f, 0x31], ascii ''-'']) = None
   \<and> snd (get_sort_key [ascii ''d'', [0x661f, 0x671f, 0x31], ascii ''-'']) = (0, 0, 0)"
proof -
  let ?a = "[ascii ''a'', [0x661f, 0x671f, 0x32], ascii ''08:00:00 09:00:00''] :: row"
  let ?b = "[ascii ''b'', [0x661f, 0x671f, 0x31], ascii ''10:00:00 11:00:00''] :: row"
  let ?c = "[ascii ''c'', ascii ''Sunday'', ascii ''07:00:00 08:00:00''] :: row"
  let ?d = "[ascii ''d'', [0x661f, 0x671f, 0x31], ascii ''-''] :: row"
  have ka: "get_sort_key ?a = (2, (8, 0, 0))" by (simp add: key_eval)
  have kb: "get_sort_key ?b = (1, (10, 0, 0))" by (simp add: key_eval)
  have kc: "get_sort_key ?c = (8, (7, 0, 0))" by (simp add: key_eval)
  have kd: "get_sort_key ?d = (1, (0, 0, 0))" by (simp add: key_eval)
  have m: "map get_sort_key (sort_events [?a, ?b, ?c, ?d])
           = [(1, (0, 0, 0)), (1, (10, 0, 0)), (2, (8, 0, 0)), (8, (7, 0, 0))]"
    by (simp add: sort_events_def key_eval order_eval)
  have hb: "length ?b > 1 \<and> day_map (?b ! 1) = Some 1" by (simp add: day_map_def)
  have pb: "?b \<noteq> [] \<and> parse_start_end_from_string (last ?b) = Some ((10, 0, 0), (11, 0, 0))"
    by (simp add: parse_eval)
  have hc: "length ?c \<le> 1 \<or> day_map (?c ! 1) = None" by (simp add: day_map_def)
  have hd: "?d = [] \<or> parse_start_end_from_string (last ?d) = None" by (simp add: parse_eval)
  note tb = sort_determinism[where r = ?b and d = 1 and start_t = "(10, 0, 0)"
      and end_t = "(11, 0, 0)" and rows = "[?a, ?b, ?c, ?d]"]
  note tc = sort_determinism[where r = ?c and rows = "[?a, ?b, ?c, ?d]"]
  note td = sort_determinism[where r = ?d and rows = "[?a, ?b, ?c, ?d]"]
  from tb hb have r1: "fst (get_sort_key ?b) = 1" by blast
  from tb pb have r2: "snd (get_sort_key ?b) = (10, 0, 0)" by blast
  from tc hc have r3: "fst (get_sort_key ?c) = 8" by blast
  from td hd have r4: "snd (get_sort_key ?d) = (0, 0, 0)" by blast
  have hb': "day_map (?b ! 1) = Some 1" using hb by simp
  have hc': "day_map (?c ! 1) = None" by (simp add: day_map_def)
  have hd': "parse_start_end_from_string (last ?d) = None" by (simp add: parse_eval)
  show ?thesis
    using m hb' r1 r2 hc' r3 hd' r4 by (intro conjI) (elim conjE | assumption)+
qed



section \<open>Synthetic rows and their sort keys\<close>

text \<open>
  A string with two matches of the time pattern has at least sixteen characters; the
  activity names, the location names of the three pools and the filler \<open>-\<close> are
  shorter, and the formatted interval string is longer.
\<close>

lemma findall_bound: "length (findall_hms s) * 8 \<le> length s"
proof (induction s rule: findall_hms.induct)
  case (1 s)
  show ?case
  proof (cases "s = []")
    case True
    then show ?thesis by (simp add: findall_hms.simps)
  next
    case ne: False
    show ?thesis
    proof (cases "hms_shaped (take 8 s)")
      case True
      have l8: "8 \<le> length s"
      proof (rule ccontr)
        assume "\<not> 8 \<le> length s"
        then have "length (take 8 s) < 8" by simp
        then have "\<not> hms_shaped (take 8 s)"
          by (cases "take 8 s" rule: hms_shaped.cases) auto
        with True show False by simp
      qed
      have "findall_hms s = take 8 s # findall_hms (drop 8 s)"
        using ne True by (simp add: findall_hms.simps)
      then show ?thesis using "1.IH"(1)[OF ne True] l8 by simp
    next
      case False
      have "findall_hms s = findall_hms (tl s)"
        using ne False by (simp add: findall_hms.simps)
      then show ?thesis using "1.IH"(2)[OF ne False] by simp
    qed
  qed
qed

lemma parse_short: "length s < 16 \<Longrightarrow> parse_start_end_from_string s = None"
proof -
  assume "length s < 16"
  then have "length (findall_hms s) \<noteq> 2" using findall_bound[of s] by auto
  then show ?thesis by (simp add: parse_start_end_from_string_def)
qed

lemma format_long: "16 \<le> length (format_time_range s e)"
  by (simp add: format_time_range_def)

lemma key_snd:
  "snd (get_sort_key r)
     = (case (if r = [] then None else parse_start_end_from_string (last r)) of
          Some (st, en) \<Rightarrow> st | None \<Rightarrow> (0, 0, 0))"
  by (auto simp: get_sort_key_def Let_def split: option.splits)


lemma interior_step_lift:
  "interior_step (returning f) (ate, lift_rows f st) sl
     = lift_flag_run f (interior_step (returning tuple_row) (ate, st) sl)"
proof -
  obtain s e where sl: "sl = (s, e)" by (cases sl)
  obtain rs g where st: "st = (rs, g)" by (cases st)
  show ?thesis
    unfolding sl st
    by (simp add: interior_step_def append_random_returning bind_err_Inr lift_rows_def
          lift_flag_run_def Let_def)
qed

lemma interior_loop_lift:
  "interior_loop (returning f) (ate, lift_rows f st) sls
     = lift_flag_run f (interior_loop (returning tuple_row) (ate, st) sls)"
proof (induction sls arbitrary: ate st)
  case Nil
  then show ?case by (simp add: lift_flag_run_def)
next
  case (Cons sl sls)
  show ?case
  proof (cases "interior_step (returning tuple_row) (ate, st) sl")
    case (Inl err)
    then show ?thesis
      by (simp add: interior_step_lift lift_flag_run_def bind_err_Inl)
  next
    case (Inr res)
    obtain ate1 st1 where r: "res = (ate1, st1)" by (cases res)
    show ?thesis
      by (simp add: interior_step_lift Inr r lift_flag_run_def bind_err_Inr
            Cons.IH[unfolded lift_flag_run_def])
  qed
qed

lemma last_slot_lift:
  "last_slot_step (returning f) home sl (lift_rows f st)
     = lift_run f (last_slot_step (returning tuple_row) home sl st)"
proof -
  obtain s e where sl: "sl = (s, e)" by (cases sl)
  obtain rs g where st: "st = (rs, g)" by (cases st)
  show ?thesis
    unfolding sl st
    by (simp add: last_slot_step_def append_random_returning append_home_returning bind_err_Inr
          lift_rows_def lift_run_def Let_def)
qed

lemma fill_with_lift:
  "fill_free_time_with (returning f) slots home g
     = lift_run f (fill_free_time_with (returning tuple_row) slots home g)"
proof (cases "slots = []")
  case True
  then show ?thesis by (simp add: fill_free_time_with_def lift_rows_def lift_run_def)
next
  case False
  obtain s e where h: "slots ! 0 = (s, e)" by (cases "slots ! 0")
  define st0 where "st0 = ([(ACT_WAKE, home, s, e)], g)"
  have a0: "([f ACT_WAKE home s e], g) = lift_rows f st0"
    by (simp add: st0_def lift_rows_def)
  show ?thesis
  proof (cases "interior_loop (returning tuple_row) (False, st0) (interior_slots slots)")
    case (Inl err)
    then show ?thesis
      using False
      by (simp add: fill_free_time_with_def h append_home_returning bind_err_Inr a0
            interior_loop_lift lift_flag_run_def lift_run_def bind_err_Inl st0_def[symmetric])
  next
    case (Inr res)
    obtain ate1 st1 where r: "res = (ate1, st1)" by (cases res)
    obtain rs1 g1 where st1: "st1 = (rs1, g1)" by (cases st1)
    have al: "append_home (returning f) ACT_REST home s e (lift_rows f st1)
              = lift_run f (append_home (returning tuple_row) ACT_REST home s e st1)"
      by (simp add: st1 lift_rows_def lift_run_def append_home_returning)
    show ?thesis
      using False
      by (simp add: fill_free_time_with_def h append_home_returning bind_err_Inr a0
            interior_loop_lift Inr r lift_flag_run_def st0_def[symmetric] last_slot_lift al)
         (simp add: lift_run_def)
  qed
qed

lemma fill_free_time_rows:
  assumes "8 \<le> n"
  shows "\<exists>g'. fill_free_time day slots home n g
           = Inr (map (\<lambda>(a, l, s, e). event_fields day n a l s e)
                    (fill_records slots home g), g')"
proof -
  obtain g' where r: "fill_free_time_with (returning tuple_row) slots home g
          = Inr (fill_records slots home g, g')"
    using fill_records_run by blast
  have "fill_free_time day slots home n g
        = lift_run (event_fields day n) (fill_free_time_with (returning tuple_row) slots home g)"
    unfolding fill_free_time_def create_new_row_returning[OF assms]
    by (rule fill_with_lift)
  then show ?thesis by (simp add: r lift_run_def lift_rows_def)
qed

lemma fill_free_time_raises:
  assumes "slots \<noteq> []" "n \<le> 7"
  shows "fill_free_time day slots home n g = Inl IndexError"
proof -
  obtain s e where h: "slots ! 0 = (s, e)" by (cases "slots ! 0")
  show ?thesis
    using assms
    by (simp add: fill_free_time_def fill_free_time_with_def h append_home_def
          create_new_row_raises bind_err_Inl)
qed

lemma fill_free_time_empty: "fill_free_time day [] home n g = Inr ([], g)"
  by (simp add: fill_free_time_def fill_free_time_with_def)

lemma fill_records_empty: "fill_records [] home g = []"
  by (simp add: fill_records_def fill_free_time_with_def)

lemma pools_nonempty: "LIBRARIES \<noteq> []" "CANTEENS \<noteq> []"
  by (simp_all add: LIBRARIES_def CANTEENS_def)

lemma pool_choice_mem:
  "LIBRARIES ! (k mod length LIBRARIES) \<in> set LIBRARIES"
  "CANTEENS ! (k mod length CANTEENS) \<in> set CANTEENS"
  using pools_nonempty by simp_all

lemma acts_mem:
  "ACT_WAKE \<in> set ACTIVITIES" "ACT_STUDY \<in> set ACTIVITIES" "ACT_LUNCH \<in> set ACTIVITIES"
  "ACT_DINNER \<in> set ACTIVITIES" "ACT_EVENING \<in> set ACTIVITIES" "ACT_REST \<in> set ACTIVITIES"
  by (simp_all add: ACTIVITIES_def)

lemma record_ok_intros:
  "a \<in> set ACTIVITIES \<Longrightarrow> record_ok home (a, home, x, y)"
  "a \<in> set ACTIVITIES \<Longrightarrow> record_ok home (a, LIBRARIES ! (k mod length LIBRARIES), x, y)"
  "a \<in> set ACTIVITIES \<Longrightarrow> record_ok home (a, CANTEENS ! (k mod length CANTEENS), x, y)"
  using pool_choice_mem[of k] by (simp_all add: record_ok_def)

lemma interior_step_ok:
  assumes "interior_step (returning tuple_row) (ate, fs, g) sl = Inr (ate', fs', g')"
    and "list_all (record_ok home) fs"
  shows "list_all (record_ok home) fs'"
proof -
  obtain s e where sl: "sl = (s, e)" by (cases sl)
  show ?thesis
    using assms unfolding sl
    by (auto simp: interior_step_def append_random_returning bind_err_Inr Let_def
          record_ok_intros acts_mem split: if_splits)
qed

lemma interior_loop_ok:
  assumes "interior_loop (returning tuple_row) (ate, fs, g) sls = Inr (ate', fs', g')"
    and "list_all (record_ok home) fs"
  shows "list_all (record_ok home) fs'"
  using assms
proof (induction sls arbitrary: ate fs g)
  case Nil
  then show ?case by simp
next
  case (Cons sl sls)
  obtain out g1 where st: "interior_step (returning tuple_row) (ate, fs, g) sl
       = Inr (ate \<or> lunch_overlaps sl, fs @ out, g1)"
    using interior_step_shape by blast
  have o1: "list_all (record_ok home) (fs @ out)"
    by (rule interior_step_ok[OF st Cons.prems(2)])
  have "interior_loop (returning tuple_row) (ate \<or> lunch_overlaps sl, fs @ out, g1) sls
        = Inr (ate', fs', g')"
    using Cons.prems(1) by (simp add: st bind_err_Inr)
  from Cons.IH[OF this o1] show ?case .
qed

lemma last_slot_ok:
  assumes "last_slot_step (returning tuple_row) home sl (fs, g) = Inr (fs', g')"
    and "list_all (record_ok home) fs"
  shows "list_all (record_ok home) fs'"
proof -
  obtain s e where sl: "sl = (s, e)" by (cases sl)
  show ?thesis
    using assms unfolding sl
    by (auto simp: last_slot_step_def append_random_returning append_home_returning
          bind_err_Inr Let_def record_ok_intros acts_mem split: if_splits)
qed

lemma fill_records_ok: "list_all (record_ok home) (fill_records slots home g)"
proof (cases "slots = []")
  case True
  then show ?thesis by (simp add: fill_records_def fill_free_time_with_def)
next
  case False
  obtain s e where h: "slots ! 0 = (s, e)" by (cases "slots ! 0")
  obtain g' where run: "fill_free_time_with (returning tuple_row) slots home g
        = Inr (fill_records slots home g, g')"
    using fill_records_run by blast
  obtain out g1 where lp: "interior_loop (returning tuple_row)
        (False, [(ACT_WAKE, home, s, e)], g) (interior_slots slots)
      = Inr (False \<or> list_ex lunch_overlaps (interior_slots slots),
             [(ACT_WAKE, home, s, e)] @ out, g1)"
    using interior_loop_shape by blast
  have o0: "list_all (record_ok home) [(ACT_WAKE, home, s, e)]"
    by (simp add: record_ok_intros acts_mem)
  have o1: "list_all (record_ok home) ([(ACT_WAKE, home, s, e)] @ out)"
    by (rule interior_loop_ok[OF lp o0])
  have unf: "fill_free_time_with (returning tuple_row) slots home g
     = (if length slots > 1
        then last_slot_step (returning tuple_row) home (last slots)
               ([(ACT_WAKE, home, s, e)] @ out, g1)
        else if length slots = 1
        then append_home (returning tuple_row) ACT_REST home s e
               ([(ACT_WAKE, home, s, e)] @ out, g1)
        else Inr ([(ACT_WAKE, home, s, e)] @ out, g1))"
    using False
    by (simp only: fill_free_time_with_def h prod.case append_home_returning bind_err_Inr
          append_Nil lp if_False)
  show ?thesis
  proof (cases "length slots > 1")
    case True
    then have "last_slot_step (returning tuple_row) home (last slots)
               ([(ACT_WAKE, home, s, e)] @ out, g1) = Inr (fill_records slots home g, g')"
      using unf run by simp
    from last_slot_ok[OF this o1] show ?thesis .
  next
    case f: False
    then have "length slots = 1" using False by (cases slots) auto
    then have "Inr (([(ACT_WAKE, home, s, e)] @ out) @ [(ACT_REST, home, s, e)], g1)
          = (Inr (fill_records slots home g, g') :: py_error + record_args list \<times> rng)"
      using unf run by (simp add: append_home_returning)
    then have "fill_records slots home g
          = ([(ACT_WAKE, home, s, e)] @ out) @ [(ACT_REST, home, s, e)]"
      by simp
    then show ?thesis using o1 by (simp add: record_ok_intros acts_mem)
  qed
qed

lemma dec_length: "n < 1000 \<Longrightarrow> length (dec n) \<le> 3"
proof -
  assume n: "n < 1000"
  have d1: "\<And>k. k < 10 \<Longrightarrow> length (dec k) = 1" by (simp add: dec.simps)
  have d2: "\<And>k. k < 100 \<Longrightarrow> length (dec k) \<le> 2"
  proof -
    fix k :: nat assume "k < 100"
    then show "length (dec k) \<le> 2"
      by (subst dec.simps) (simp add: d1)
  qed
  show ?thesis
  proof (cases "n < 10")
    case True
    then show ?thesis by (simp add: d1)
  next
    case False
    have "n div 10 < 100" using n by simp
    from d2[OF this] False show ?thesis by (subst dec.simps) simp
  qed
qed

lemma fmt_0d_length: "n < 1000 \<Longrightarrow> w \<le> 3 \<Longrightarrow> length (fmt_0d w n) \<le> 3"
  using dec_length[of n] by (simp add: fmt_0d_def)

lemma act_short: "a \<in> set ACTIVITIES \<Longrightarrow> length a < 16"
  by (auto simp: ACTIVITIES_def ACT_WAKE_def ACT_STUDY_def ACT_LUNCH_def ACT_DINNER_def
        ACT_EVENING_def ACT_REST_def)

lemma pool_short:
  assumes "l \<in> set DORMITORIES \<union> set LIBRARIES \<union> set CANTEENS"
  shows "length (fst l) < 16 \<and> length (snd l) < 16"
proof -
  have a: "\<And>i w. i < 101 \<Longrightarrow> w \<le> 3 \<Longrightarrow> length (fmt_0d w i) \<le> 3"
    by (rule fmt_0d_length) simp_all
  have b: "\<And>i::nat. i < 5 \<Longrightarrow> length (dec i) \<le> 3"
    by (rule dec_length) simp
  from assms consider (d) "l \<in> set DORMITORIES" | (li) "l \<in> set LIBRARIES"
    | (c) "l \<in> set CANTEENS" by auto
  then show ?thesis
  proof cases
    case d
    then obtain i where "i < 101" and l: "l = ([0x5bbf, 0x820d], fmt_0d 3 i @ [0x680b])"
      by (auto simp: DORMITORIES_def)
    with a[of i 3] show ?thesis by simp
  next
    case li
    then obtain i where "i < 5" and l: "l = ([0x56fe, 0x4e66, 0x9986], dec i)"
      by (auto simp: LIBRARIES_def)
    with b[of i] show ?thesis by simp
  next
    case c
    then obtain i where "i < 11" and l: "l = ([0x98df, 0x5802], fmt_0d 2 i)"
      by (auto simp: CANTEENS_def)
    with a[of i 2] show ?thesis by simp
  qed
qed


lemma dash_short: "length (ascii ''-'') < 16"
  by simp

lemma format_ne_short: "length x < 16 \<Longrightarrow> x \<noteq> format_time_range s e"
  using format_long[of s e] by auto

lemma key_snd_last:
  "r \<noteq> [] \<Longrightarrow> length (last r) < 16 \<Longrightarrow> snd (get_sort_key r) = (0, 0, 0)"
  by (simp add: key_snd parse_short)

text \<open>
  Claim C10. The builder returns a row only when the table has at least eight columns:
  with fewer columns and a free interval to fill, the first call of the builder raises
  \<open>IndexError\<close> at the line that it prints, and no row is built; with at least eight
  columns the filler returns the builder's rows of its records. So 8 is the only column
  count below 9 for which a synthetic row exists. For every row \<open>r\<close> that the filler
  returns, with the home location taken from the dormitory pool and the column count
  \<open>n\<close>: \<open>r\<close> has exactly \<open>n\<close> fields; \<open>r\<close> is the nine fields of one of the
  filler's records, padded with \<open>-\<close> and cut to \<open>n\<close> fields; the formatted interval
  string of that record is the last field of \<open>r\<close> if and only if \<open>n = 9\<close>; for
  \<open>n > 9\<close> the last field is \<open>-\<close>; for \<open>n < 9\<close> the interval string is cut away and
  the row ends with the location name; and for \<open>n \<noteq> 9\<close> the parser fails on the last
  field, so the sort key of the row is the ordinal of its day with the start time
  00:00:00.
\<close>

theorem synthetic_row_fields:
  "(slots \<noteq> [] \<and> n \<le> 7 \<longrightarrow> fill_free_time day_name slots home_dorm n g = Inl IndexError)
   \<and> (8 \<le> n \<longrightarrow>
        (\<exists>g1. fill_free_time day_name slots home_dorm n g
           = Inr (map (\<lambda>(a, l, s, e). event_fields day_name n a l s e)
                    (fill_records slots home_dorm g), g1)))
   \<and> (home_dorm \<in> set DORMITORIES
        \<and> fill_free_time day_name slots home_dorm n g = Inr (rows, g') \<and> r \<in> set rows
      \<longrightarrow> length r = n
          \<and> (\<exists>a l s e. (a, l, s, e) \<in> set (fill_records slots home_dorm g)
                \<and> r = take n ([a, day_name, ascii ''-'', ascii ''-'', ascii ''-'', ascii ''-'',
                                fst l, snd l, format_time_range s e]
                               @ replicate (n - 9) (ascii ''-''))
                \<and> (last_field r = Some (format_time_range s e) \<longleftrightarrow> n = 9)
                \<and> (9 < n \<longrightarrow> last_field r = Some (ascii ''-''))
                \<and> (n < 9 \<longrightarrow> r = [a, day_name, ascii ''-'', ascii ''-'', ascii ''-'',
                                     ascii ''-'', fst l, snd l])
                \<and> (n \<noteq> 9 \<longrightarrow> parse_start_end_from_string (last r) = None
                      \<and> get_sort_key r = (dict_get day_map day_name 8, (0, 0, 0)))))"
proof (intro conjI)
  show "slots \<noteq> [] \<and> n \<le> 7 \<longrightarrow> fill_free_time day_name slots home_dorm n g = Inl IndexError"
    by (simp add: fill_free_time_raises)
next
  show "8 \<le> n \<longrightarrow>
        (\<exists>g1. fill_free_time day_name slots home_dorm n g
           = Inr (map (\<lambda>(a, l, s, e). event_fields day_name n a l s e)
                    (fill_records slots home_dorm g), g1))"
    using fill_free_time_rows by blast
next
  have main: "length r = n
          \<and> (\<exists>a l s e. (a, l, s, e) \<in> set (fill_records slots home_dorm g)
                \<and> r = take n ([a, day_name, ascii ''-'', ascii ''-'', ascii ''-'', ascii ''-'',
                                fst l, snd l, format_time_range s e]
                               @ replicate (n - 9) (ascii ''-''))
                \<and> (last_field r = Some (format_time_range s e) \<longleftrightarrow> n = 9)
                \<and> (9 < n \<longrightarrow> last_field r = Some (ascii ''-''))
                \<and> (n < 9 \<longrightarrow> r = [a, day_name, ascii ''-'', ascii ''-'', ascii ''-'',
                                     ascii ''-'', fst l, snd l])
                \<and> (n \<noteq> 9 \<longrightarrow> parse_start_end_from_string (last r) = None
                      \<and> get_sort_key r = (dict_get day_map day_name 8, (0, 0, 0))))"
    if h: "home_dorm \<in> set DORMITORIES
      \<and> fill_free_time day_name slots home_dorm n g = Inr (rows, g') \<and> r \<in> set rows"
  proof -
  have n8: "8 \<le> n"
  proof (rule ccontr)
    assume "\<not> 8 \<le> n"
    then have n7: "n \<le> 7" by simp
    show False
    proof (cases "slots = []")
      case True
      then have "rows = []" using h by (simp add: fill_free_time_empty)
      then show False using h by simp
    next
      case False
      then show False using h fill_free_time_raises[OF False n7, of day_name home_dorm g] by simp
    qed
  qed
  obtain g1 where "fill_free_time day_name slots home_dorm n g
           = Inr (map (\<lambda>(a, l, s, e). event_fields day_name n a l s e)
                    (fill_records slots home_dorm g), g1)"
    using fill_free_time_rows[OF n8] by blast
  then have rows: "rows = map (\<lambda>(a, l, s, e). event_fields day_name n a l s e)
                    (fill_records slots home_dorm g)"
    using h by simp
  then obtain a l s e where m: "(a, l, s, e) \<in> set (fill_records slots home_dorm g)"
    and re: "r = event_fields day_name n a l s e"
    using h by auto
  obtain lt ln where l: "l = (lt, ln)" by (cases l)
  have ok: "record_ok home_dorm (a, l, s, e)"
    using fill_records_ok[of home_dorm slots g] m by (auto simp: list_all_iff)
  then have am: "a \<in> set ACTIVITIES"
    and lm: "l \<in> set DORMITORIES \<union> set LIBRARIES \<union> set CANTEENS"
    using h by (auto simp: record_ok_def)
  have sl: "length lt < 16" "length ln < 16" using pool_short[OF lm] by (simp_all add: l)
  define fmt where "fmt = format_time_range s e"
  have r: "r = take n ([a, day_name, ascii ''-'', ascii ''-'', ascii ''-'', ascii ''-'', lt, ln, fmt]
                       @ replicate (n - 9) (ascii ''-''))"
    by (simp only: re l event_fields_eq fmt_def)
  have len: "length r = n" by (simp only: re event_fields_length)
  have fne: "\<And>x. length x < 16 \<Longrightarrow> x \<noteq> fmt"
    unfolding fmt_def by (rule format_ne_short)
  have day: "get_sort_key r
             = (dict_get day_map day_name 8,
                case parse_start_end_from_string (last r) of
                  Some (st, en) \<Rightarrow> st | None \<Rightarrow> (0, 0, 0))"
  proof -
    have "1 < length r" using len n8 by simp
    moreover have "r ! 1 = day_name" using n8 by (simp add: r)
    ultimately show "get_sort_key r
             = (dict_get day_map day_name 8,
                case parse_start_end_from_string (last r) of
                  Some (st, en) \<Rightarrow> st | None \<Rightarrow> (0, 0, 0))"
      by (auto simp: get_sort_key_def Let_def split: option.splits)
  qed
  consider (eight) "n = 8" | (nine) "n = 9" | (more) "9 < n" using n8 by linarith
  then have body: "(last_field r = Some fmt \<longleftrightarrow> n = 9)
                \<and> (9 < n \<longrightarrow> last_field r = Some (ascii ''-''))
                \<and> (n < 9 \<longrightarrow> r = [a, day_name, ascii ''-'', ascii ''-'', ascii ''-'',
                                     ascii ''-'', lt, ln])
                \<and> (n \<noteq> 9 \<longrightarrow> parse_start_end_from_string (last r) = None
                      \<and> get_sort_key r = (dict_get day_map day_name 8, (0, 0, 0)))"
  proof cases
    case eight
    then have e: "r = [a, day_name, ascii ''-'', ascii ''-'', ascii ''-'', ascii ''-'', lt, ln]"
      by (simp add: r)
    have p: "parse_start_end_from_string (last r) = None"
      using sl(2) by (simp add: e parse_short)
    have k: "get_sort_key r = (dict_get day_map day_name 8, (0, 0, 0))"
      by (simp add: day p)
    show ?thesis
      using eight fne[OF sl(2)] p k e by (simp add: last_field_def)
  next
    case nine
    then have e: "r = [a, day_name, ascii ''-'', ascii ''-'', ascii ''-'', ascii ''-'', lt, ln, fmt]"
      by (simp add: r)
    show ?thesis using nine by (simp add: e last_field_def)
  next
    case more
    define k where "k = n - 10"
    have k: "n = 10 + k" using more by (simp add: k_def)
    have tk: "r = [a, day_name, ascii ''-'', ascii ''-'', ascii ''-'', ascii ''-'', lt, ln, fmt]
                  @ replicate (Suc k) (ascii ''-'')"
      unfolding r k by simp
    have ne: "r \<noteq> []" unfolding tk by simp
    have la: "last r = ascii ''-''" unfolding tk by simp
    have d: "ascii ''-'' \<noteq> fmt" by (rule fne) simp
    have p: "parse_start_end_from_string (last r) = None"
      unfolding la by (rule parse_short) simp
    have kk: "get_sort_key r = (dict_get day_map day_name 8, (0, 0, 0))"
      by (simp add: day p)
    have lf: "last_field r = Some (ascii ''-'')" using ne la by (simp add: last_field_def)
    have lf2: "last_field r \<noteq> Some fmt" using d unfolding lf by simp
    show ?thesis
      using more p kk lf lf2 by simp
  qed
  have "(a, l, s, e) \<in> set (fill_records slots home_dorm g)
                \<and> r = take n ([a, day_name, ascii ''-'', ascii ''-'', ascii ''-'', ascii ''-'',
                                fst l, snd l, format_time_range s e]
                               @ replicate (n - 9) (ascii ''-''))
                \<and> (last_field r = Some (format_time_range s e) \<longleftrightarrow> n = 9)
                \<and> (9 < n \<longrightarrow> last_field r = Some (ascii ''-''))
                \<and> (n < 9 \<longrightarrow> r = [a, day_name, ascii ''-'', ascii ''-'', ascii ''-'',
                                     ascii ''-'', fst l, snd l])
                \<and> (n \<noteq> 9 \<longrightarrow> parse_start_end_from_string (last r) = None
                      \<and> get_sort_key r = (dict_get day_map day_name 8, (0, 0, 0)))"
    using m r body unfolding fmt_def l fst_conv snd_conv
    by (intro conjI) (elim conjE | assumption)+
  then have ex: "\<exists>a l s e. (a, l, s, e) \<in> set (fill_records slots home_dorm g)
                \<and> r = take n ([a, day_name, ascii ''-'', ascii ''-'', ascii ''-'', ascii ''-'',
                                fst l, snd l, format_time_range s e]
                               @ replicate (n - 9) (ascii ''-''))
                \<and> (last_field r = Some (format_time_range s e) \<longleftrightarrow> n = 9)
                \<and> (9 < n \<longrightarrow> last_field r = Some (ascii ''-''))
                \<and> (n < 9 \<longrightarrow> r = [a, day_name, ascii ''-'', ascii ''-'', ascii ''-'',
                                     ascii ''-'', fst l, snd l])
                \<and> (n \<noteq> 9 \<longrightarrow> parse_start_end_from_string (last r) = None
                      \<and> get_sort_key r = (dict_get day_map day_name 8, (0, 0, 0)))"
    by blast
    show ?thesis
      using len ex by (rule conjI)
  qed
  then show "home_dorm \<in> set DORMITORIES
        \<and> fill_free_time day_name slots home_dorm n g = Inr (rows, g') \<and> r \<in> set rows
      \<longrightarrow> length r = n
          \<and> (\<exists>a l s e. (a, l, s, e) \<in> set (fill_records slots home_dorm g)
                \<and> r = take n ([a, day_name, ascii ''-'', ascii ''-'', ascii ''-'', ascii ''-'',
                                fst l, snd l, format_time_range s e]
                               @ replicate (n - 9) (ascii ''-''))
                \<and> (last_field r = Some (format_time_range s e) \<longleftrightarrow> n = 9)
                \<and> (9 < n \<longrightarrow> last_field r = Some (ascii ''-''))
                \<and> (n < 9 \<longrightarrow> r = [a, day_name, ascii ''-'', ascii ''-'', ascii ''-'',
                                     ascii ''-'', fst l, snd l])
                \<and> (n \<noteq> 9 \<longrightarrow> parse_start_end_from_string (last r) = None
                      \<and> get_sort_key r = (dict_get day_map day_name 8, (0, 0, 0))))"
    by (rule impI)
qed

theorem synthetic_row_fields_witness:
  "DORMITORIES ! 0 \<in> set DORMITORIES
   \<and> fill_free_time [0x661f, 0x671f, 0x31] [((7, 0, 0), (8, 0, 0)), ((20, 0, 0), (22, 0, 0))]
        (DORMITORIES ! 0) 7 (sconst 0) = Inl IndexError
   \<and> fill_free_time [0x661f, 0x671f, 0x31] [((7, 0, 0), (8, 0, 0)), ((20, 0, 0), (22, 0, 0))]
        (DORMITORIES ! 0) 8 (sconst 0)
       = Inr ([[ACT_WAKE, [0x661f, 0x671f, 0x31], ascii ''-'', ascii ''-'', ascii ''-'',
                ascii ''-'', fst (DORMITORIES ! 0), snd (DORMITORIES ! 0)],
               [ACT_EVENING, [0x661f, 0x671f, 0x31], ascii ''-'', ascii ''-'', ascii ''-'',
                ascii ''-'', fst (DORMITORIES ! 0), snd (DORMITORIES ! 0)]], sconst 0)
   \<and> parse_start_end_from_string (snd (DORMITORIES ! 0)) = None
   \<and> get_sort_key [ACT_WAKE, [0x661f, 0x671f, 0x31], ascii ''-'', ascii ''-'', ascii ''-'',
                    ascii ''-'', fst (DORMITORIES ! 0), snd (DORMITORIES ! 0)]
       = (1, (0, 0, 0))
   \<and> fill_free_time [0x661f, 0x671f, 0x31] [((7, 0, 0), (8, 0, 0)), ((20, 0, 0), (22, 0, 0))]
        (DORMITORIES ! 0) 10 (sconst 0)
       = Inr ([[ACT_WAKE, [0x661f, 0x671f, 0x31], ascii ''-'', ascii ''-'', ascii ''-'',
                ascii ''-'', fst (DORMITORIES ! 0), snd (DORMITORIES ! 0),
                format_time_range (7, 0, 0) (8, 0, 0), ascii ''-''],
               [ACT_EVENING, [0x661f, 0x671f, 0x31], ascii ''-'', ascii ''-'', ascii ''-'',
                ascii ''-'', fst (DORMITORIES ! 0), snd (DORMITORIES ! 0),
                format_time_range (20, 0, 0) (22, 0, 0), ascii ''-'']], sconst 0)
   \<and> get_sort_key [ACT_EVENING, [0x661f, 0x671f, 0x31], ascii ''-'', ascii ''-'', ascii ''-'',
                    ascii ''-'', fst (DORMITORIES ! 0), snd (DORMITORIES ! 0),
                    format_time_range (20, 0, 0) (22, 0, 0), ascii ''-'']
       = (1, (0, 0, 0))"
proof -
  let ?day = "[0x661f, 0x671f, 0x31] :: pystr"
  let ?slots = "[((7, 0, 0), (8, 0, 0)), ((20, 0, 0), (22, 0, 0))] :: slot list"
  let ?home = "DORMITORIES ! 0"
  let ?w8 = "[ACT_WAKE, ?day, ascii ''-'', ascii ''-'', ascii ''-'', ascii ''-'',
              fst ?home, snd ?home]"
  let ?e8 = "[ACT_EVENING, ?day, ascii ''-'', ascii ''-'', ascii ''-'', ascii ''-'',
              fst ?home, snd ?home]"
  let ?w10 = "[ACT_WAKE, ?day, ascii ''-'', ascii ''-'', ascii ''-'', ascii ''-'',
               fst ?home, snd ?home, format_time_range (7, 0, 0) (8, 0, 0), ascii ''-'']"
  let ?e10 = "[ACT_EVENING, ?day, ascii ''-'', ascii ''-'', ascii ''-'', ascii ''-'',
               fst ?home, snd ?home, format_time_range (20, 0, 0) (22, 0, 0), ascii ''-'']"
  have h: "?home \<in> set DORMITORIES" by (rule nth_mem) (simp add: DORMITORIES_def)
  have d: "dict_get day_map ?day 8 = 1" by (simp add: dict_get_def day_map_def)
  have recs: "fill_records ?slots ?home (sconst 0)
        = [(ACT_WAKE, ?home, (7, 0, 0), (8, 0, 0)), (ACT_EVENING, ?home, (20, 0, 0), (22, 0, 0))]"
    by (simp add: fill_eval const_eval order_eval)
  note t7 = synthetic_row_fields[where n = 7 and slots = ?slots and home_dorm = ?home
      and g = "sconst 0" and day_name = ?day]
  note t8 = synthetic_row_fields[where n = 8 and slots = ?slots and home_dorm = ?home
      and g = "sconst 0" and day_name = ?day and rows = "[?w8, ?e8]" and g' = "sconst 0"
      and r = ?w8]
  note t10 = synthetic_row_fields[where n = 10 and slots = ?slots and home_dorm = ?home
      and g = "sconst 0" and day_name = ?day and rows = "[?w10, ?e10]" and g' = "sconst 0"
      and r = ?e10]
  have ef: "\<And>n a l s e. event_fields ?day n a l s e
        = take n ([a, ?day, ascii ''-'', ascii ''-'', ascii ''-'', ascii ''-'', fst l, snd l,
                   format_time_range s e] @ replicate (n - 9) (ascii ''-''))"
  proof -
    fix n a and l :: loc and s e
    obtain lt ln where l: "l = (lt, ln)" by (cases l)
    show "event_fields ?day n a l s e
        = take n ([a, ?day, ascii ''-'', ascii ''-'', ascii ''-'', ascii ''-'', fst l, snd l,
                   format_time_range s e] @ replicate (n - 9) (ascii ''-''))"
      unfolding l fst_conv snd_conv by (rule event_fields_eq)
  qed
  have run8: "fill_free_time ?day ?slots ?home 8 (sconst 0) = Inr ([?w8, ?e8], sconst 0)"
    by (simp add: fill_free_time_def fill_free_time_with_def interior_slots_def append_home_def
          last_slot_step_def create_new_row_cases ef bind_err_Inr const_eval order_eval Let_def)
  have run10: "fill_free_time ?day ?slots ?home 10 (sconst 0) = Inr ([?w10, ?e10], sconst 0)"
    by (simp add: fill_free_time_def fill_free_time_with_def interior_slots_def append_home_def
          last_slot_step_def create_new_row_cases ef bind_err_Inr const_eval order_eval Let_def)
  from t7 have r7: "fill_free_time ?day ?slots ?home 7 (sconst 0) = Inl IndexError"
    by simp
  have m8: "?w8 \<in> set [?w8, ?e8]" by simp
  have m10: "?e10 \<in> set [?w10, ?e10]" by simp
  have c8: "(8::nat) \<noteq> 9 \<longrightarrow> parse_start_end_from_string (last ?w8) = None
      \<and> get_sort_key ?w8 = (dict_get day_map ?day 8, (0, 0, 0))"
    using t8[THEN conjunct2, THEN conjunct2, THEN mp, OF conjI[OF h conjI[OF run8 m8]]]
    by (elim conjE exE)
  then have k8: "parse_start_end_from_string (last ?w8) = None
      \<and> get_sort_key ?w8 = (dict_get day_map ?day 8, (0, 0, 0))"
    by simp
  have c10: "(10::nat) \<noteq> 9 \<longrightarrow> parse_start_end_from_string (last ?e10) = None
      \<and> get_sort_key ?e10 = (dict_get day_map ?day 8, (0, 0, 0))"
    using t10[THEN conjunct2, THEN conjunct2, THEN mp, OF conjI[OF h conjI[OF run10 m10]]]
    by (elim conjE exE)
  then have k10: "get_sort_key ?e10 = (dict_get day_map ?day 8, (0, 0, 0))"
    by simp
  have k8a: "parse_start_end_from_string (snd ?home) = None" using k8 by simp
  have k8b: "get_sort_key ?w8 = (1, (0, 0, 0))" using k8 unfolding d by simp
  have k10b: "get_sort_key ?e10 = (1, (0, 0, 0))" using k10 unfolding d by simp
  show ?thesis
    using h r7 run8 k8a k8b run10 k10b by (intro conjI) (elim conjE | assumption)+
qed

section \<open>The parser inverts the serialisation\<close>

text \<open>
  The Time Range Parser reads back what \<open>format_time_range\<close> writes, so with nine
  columns the sort key of a synthetic row carries the start of its record.
\<close>

lemma re_digit_ascii: "ascii_digit c \<Longrightarrow> re_digit c"
  by (auto simp: re_digit_def ascii_digit_def)

lemma findall_format:
  assumes "ascii_digit a1" "ascii_digit a2" "ascii_digit a3" "ascii_digit a4" "ascii_digit a5"
    "ascii_digit a6" "ascii_digit b1" "ascii_digit b2" "ascii_digit b3" "ascii_digit b4"
    "ascii_digit b5" "ascii_digit b6"
  shows "findall_hms (ascii ''[1900-01-01 '' @ [a1, a2, 58, a3, a4, 58, a5, a6]
                      @ ascii '', 1900-01-01 '' @ [b1, b2, 58, b3, b4, 58, b5, b6] @ ascii '']'')
         = [[a1, a2, 58, a3, a4, 58, a5, a6], [b1, b2, 58, b3, b4, 58, b5, b6]]"
  using assms[THEN re_digit_ascii]
  by (simp add: findall_hms.simps re_digit_def[of "numeral n" for n] ascii_digit_def[of "numeral n" for n])

lemma parse_format:
  assumes "valid_time s" "valid_time e"
  shows "parse_start_end_from_string (format_time_range s e) = Some (s, e)"
proof -
  obtain h m x where s: "s = (h, m, x)" by (cases s)
  obtain h' m' x' where e: "e = (h', m', x')" by (cases e)
  have bs: "h < 100" "m < 100" "x < 100" using assms(1) s by auto
  have be: "h' < 100" "m' < 100" "x' < 100" using assms(2) e by auto
  note ds = two_digits_ascii[OF bs(1)] two_digits_ascii[OF bs(2)] two_digits_ascii[OF bs(3)]
  note de = two_digits_ascii[OF be(1)] two_digits_ascii[OF be(2)] two_digits_ascii[OF be(3)]
  have iso_s: "isoformat s = [48 + h div 10, 48 + h mod 10, 58, 48 + m div 10, 48 + m mod 10, 58,
                          48 + x div 10, 48 + x mod 10]"
    using assms(1) unfolding s by (rule isoformat_valid)
  have iso_e: "isoformat e = [48 + h' div 10, 48 + h' mod 10, 58, 48 + m' div 10, 48 + m' mod 10, 58,
                          48 + x' div 10, 48 + x' mod 10]"
    using assms(2) unfolding e by (rule isoformat_valid)
  have f: "format_time_range s e
       = ascii ''[1900-01-01 '' @ isoformat s @ ascii '', 1900-01-01 '' @ isoformat e @ ascii '']''"
    by (simp add: format_time_range_def)
  have fa: "findall_hms (format_time_range s e) = [isoformat s, isoformat e]"
    unfolding f iso_s iso_e
    by (rule findall_format) (simp_all add: ds de)
  show ?thesis
    by (simp add: parse_start_end_from_string_def fa fromiso_iso[OF assms(1)]
          fromiso_iso[OF assms(2)])
qed


lemma nine_column_key:
  assumes "valid_time s" "valid_time e"
  shows "snd (get_sort_key (event_fields day 9 a l s e)) = s"
proof -
  obtain lt ln where l: "l = (lt, ln)" by (cases l)
  have r: "event_fields day 9 a l s e
           = [a, day, ascii ''-'', ascii ''-'', ascii ''-'', ascii ''-'', lt, ln,
              format_time_range s e]"
    unfolding l event_fields_eq by simp
  show ?thesis
    unfolding r key_snd by (simp add: parse_format[OF assms])
qed


end
